theory Spec2Isabelle
  imports Complex_Main "HOL-Library.Word"
begin

section \<open>The render-stream decoder of render.py\<close>

text \<open>
  The theory embeds the streaming part of \<^verbatim>\<open>RenderAppleseed\<close> (render.py): the loop of
  \<^verbatim>\<open>__render_project_file\<close> that reads chunks from the standard output of appleseed.cli,
  \<^verbatim>\<open>__process_tile_data_chunk\<close>, \<^verbatim>\<open>__process_tile_highlight_chunk\<close>, \<^verbatim>\<open>__draw_hline\<close> and
  \<^verbatim>\<open>__draw_vline\<close>.

  Python's integers are unbounded, so every coordinate and counter is an \<open>int\<close>. A byte
  is an \<open>8 word\<close>. A sample of \<^verbatim>\<open>array.array('f')\<close> is kept as the 32-bit pattern of the
  single-precision float (\<open>32 word\<close>): the code only moves samples around, it never
  computes with them. \<^verbatim>\<open>struct.unpack\<close> and \<^verbatim>\<open>fromstring\<close> use the byte order of the
  machine; the model fixes little-endian, the order of the machines appleseed.cli runs on.

  What lies outside the program is modelled as follows.
  \<^item> The pipe: \<open>pending\<close> holds the bytes the child process still writes before it closes
    its standard output, \<open>avail\<close> is a schedule saying how many bytes are in the pipe at each
    successive \<^verbatim>\<open>os.read\<close>. An entry \<open>c\<close> offers \<open>c + 1\<close> bytes (a blocking read returns
    at least one byte while the stream is open); once the schedule is used up every read is
    served in full. A read at the end of the stream returns the empty buffer.
  \<^item> Blender's \<^verbatim>\<open>test_break()\<close>: an arbitrary function \<open>brk\<close> from the number of the poll to
    its answer; \<open>polls\<close> counts the polls made so far.
  \<^item> The display sink: \<open>sink\<close> records, in order, every \<^verbatim>\<open>begin_result\<close>/\<^verbatim>\<open>end_result\<close> pair
    with the rectangle and the pixel list assigned to \<^verbatim>\<open>layer.rect\<close>, and every
    \<^verbatim>\<open>update_progress\<close> with the numerator and denominator of its argument. Whether Blender
    accepts a rectangle or a pixel list is Blender's business and not part of the model.
  \<^item> \<^verbatim>\<open>process.kill()\<close> sets \<open>killed\<close>.
  Lengths passed to \<^verbatim>\<open>os.read\<close> are taken to fit the platform's size type.
\<close>

type_synonym byte = "8 word"
type_synonym float32 = "32 word"

datatype event =
    Result int int int int "float32 list list"
  | Progress int int

datatype error = StructError | ValueError | ZeroDivisionError

record state =
  pending :: "byte list"
  avail :: "nat list"
  polls :: nat
  rendered_pixels :: int
  total_pixels :: int
  sink :: "event list"
  killed :: bool

record window =
  min_x :: int
  min_y :: int
  max_x :: int
  max_y :: int

record tile =
  tile_x :: int
  tile_y :: int
  tile_w :: int
  tile_h :: int

subsection \<open>The collaborators\<close>

text \<open>\<^verbatim>\<open>os.read(process.stdout.fileno(), n)\<close>.\<close>

definition os_read :: "nat \<Rightarrow> state \<Rightarrow> byte list \<times> state" where
  "os_read n s =
     (let k = min n (case avail s of [] \<Rightarrow> length (pending s) | c # _ \<Rightarrow> Suc c)
      in (take k (pending s), s\<lparr>pending := drop k (pending s), avail := tl (avail s)\<rparr>))"

text \<open>\<^verbatim>\<open>self.test_break()\<close>.\<close>

definition test_break :: "(nat \<Rightarrow> bool) \<Rightarrow> state \<Rightarrow> bool \<times> state" where
  "test_break brk s = (brk (polls s), s\<lparr>polls := Suc (polls s)\<rparr>)"

text \<open>The unsigned value of a little-endian byte string.\<close>

fun le_int :: "byte list \<Rightarrow> int" where
  "le_int [] = 0"
| "le_int (b # bs) = uint b + 256 * le_int bs"

text \<open>
  \<^verbatim>\<open>struct.unpack\<close> with a format of \<open>k\<close> letters \<^verbatim>\<open>I\<close>: \<open>k\<close> unsigned 32-bit fields, and
  \<^verbatim>\<open>struct.error\<close> unless the buffer has exactly \<open>4 * k\<close> bytes.
\<close>

definition unpack :: "nat \<Rightarrow> byte list \<Rightarrow> int list option" where
  "unpack k d =
     (if length d = 4 * k
      then Some (map (\<lambda>i. le_int (take 4 (drop (4 * i) d))) [0..<k])
      else None)"

text \<open>
  \<^verbatim>\<open>floats = array.array('f'); floats.fromstring(tile_data)\<close>: one sample per four bytes,
  \<^verbatim>\<open>ValueError\<close> when the length is not a multiple of four.
\<close>

definition fromstring :: "byte list \<Rightarrow> float32 list option" where
  "fromstring d =
     (if length d mod 4 = 0
      then Some (map (\<lambda>i. word_of_int (le_int (take 4 (drop (4 * i) d)))) [0..<length d div 4])
      else None)"

text \<open>Python's \<^verbatim>\<open>xs[i:j]\<close>, negative indices counting from the end.\<close>

definition py_slice :: "'a list \<Rightarrow> int \<Rightarrow> int \<Rightarrow> 'a list" where
  "py_slice xs i j =
     (let n = int (length xs);
          i' = (if i < 0 then max (i + n) 0 else min i n);
          j' = (if j < 0 then max (j + n) 0 else min j n)
      in take (nat (j' - i')) (drop (nat i') xs))"

subsection \<open>Clipping a tile against the render window\<close>

text \<open>
  The two tests ``Ignore tiles completely outside the render window'' and the variables
  computed after them, the same text in both chunk handlers.
\<close>

definition outside :: "window \<Rightarrow> tile \<Rightarrow> bool" where
  "outside win t \<longleftrightarrow>
     (tile_x t > max_x win \<or> tile_x t + tile_w t - 1 < min_x win) \<or>
     (tile_y t > max_y win \<or> tile_y t + tile_h t - 1 < min_y win)"

definition ix0 :: "window \<Rightarrow> tile \<Rightarrow> int" where
  "ix0 win t = max (tile_x t) (min_x win)"

definition iy0 :: "window \<Rightarrow> tile \<Rightarrow> int" where
  "iy0 win t = max (tile_y t) (min_y win)"

definition ix1 :: "window \<Rightarrow> tile \<Rightarrow> int" where
  "ix1 win t = min (tile_x t + tile_w t - 1) (max_x win)"

definition iy1 :: "window \<Rightarrow> tile \<Rightarrow> int" where
  "iy1 win t = min (tile_y t + tile_h t - 1) (max_y win)"

definition skip_x :: "window \<Rightarrow> tile \<Rightarrow> int" where
  "skip_x win t = ix0 win t - tile_x t"

definition skip_y :: "window \<Rightarrow> tile \<Rightarrow> int" where
  "skip_y win t = iy0 win t - tile_y t"

definition take_x :: "window \<Rightarrow> tile \<Rightarrow> int" where
  "take_x win t = ix1 win t - ix0 win t + 1"

definition take_y :: "window \<Rightarrow> tile \<Rightarrow> int" where
  "take_y win t = iy1 win t - iy0 win t + 1"

text \<open>Window-space coordinates: \<open>x0\<close> left, \<open>x1\<close> right, \<open>y0\<close> bottom, \<open>y1\<close> top.\<close>

definition x0 :: "window \<Rightarrow> tile \<Rightarrow> int" where
  "x0 win t = ix0 win t - min_x win"

definition x1 :: "window \<Rightarrow> tile \<Rightarrow> int" where
  "x1 win t = ix1 win t - min_x win"

definition y0 :: "window \<Rightarrow> tile \<Rightarrow> int" where
  "y0 win t = max_y win - iy1 win t"

definition y1 :: "window \<Rightarrow> tile \<Rightarrow> int" where
  "y1 win t = max_y win - iy0 win t"

subsection \<open>Tile data chunks\<close>

text \<open>
  The list \<^verbatim>\<open>pix\<close>: for \<open>y\<close> from \<open>take_y - 1\<close> down to \<open>0\<close>, the slices
  \<^verbatim>\<open>floats[p * 4:p * 4 + 4]\<close> for \<open>p\<close> in \<^verbatim>\<open>range(start_pix, end_pix)\<close>.
\<close>

definition pix :: "window \<Rightarrow> tile \<Rightarrow> float32 list \<Rightarrow> float32 list list" where
  "pix win t floats =
     concat (map (\<lambda>y.
        let start_pix = (skip_y win t + y) * tile_w t + skip_x win t;
            end_pix = start_pix + take_x win t
        in map (\<lambda>p. py_slice floats (p * 4) (p * 4 + 4)) [start_pix..end_pix - 1])
      (rev [0..take_y win t - 1]))"

text \<open>
  The loop ``Read tile data''. It has no exit of its own at the end of the stream, so it is
  given fuel: \<open>None\<close> says that the fuel ran out before the loop was left.
\<close>

fun read_tile_data ::
  "(nat \<Rightarrow> bool) \<Rightarrow> nat \<Rightarrow> int \<Rightarrow> byte list \<Rightarrow> state \<Rightarrow> (byte list \<times> state) option" where
  "read_tile_data brk 0 tile_size tile_data s = None"
| "read_tile_data brk (Suc fuel) tile_size tile_data s =
     (if int (length tile_data) < tile_size then
        (case test_break brk s of (b, s1) \<Rightarrow>
           if \<not> b then
             (case os_read (nat (tile_size - int (length tile_data))) s1 of (d, s2) \<Rightarrow>
                read_tile_data brk fuel tile_size (tile_data @ d) s2)
           else Some (tile_data, s1))
      else Some (tile_data, s))"

text \<open>
  The rest of \<^verbatim>\<open>__process_tile_data_chunk\<close>, from the window tests to \<^verbatim>\<open>return True\<close>.
  \<^verbatim>\<open>self.rendered_pixels / self.total_pixels\<close> raises \<^verbatim>\<open>ZeroDivisionError\<close> on a zero total,
  after the counter has been updated.
\<close>

definition emit_tile_data ::
  "window \<Rightarrow> tile \<Rightarrow> byte list \<Rightarrow> state \<Rightarrow> (error \<times> state) + (bool \<times> state)" where
  "emit_tile_data win t tile_data s =
     (if tile_x t > max_x win \<or> tile_x t + tile_w t - 1 < min_x win then Inr (True, s)
      else if tile_y t > max_y win \<or> tile_y t + tile_h t - 1 < min_y win then Inr (True, s)
      else
        (case fromstring tile_data of
           None \<Rightarrow> Inl (ValueError, s)
         | Some floats \<Rightarrow>
             let s1 = s\<lparr>sink := sink s @
                        [Result (x0 win t) (y0 win t) (take_x win t) (take_y win t)
                           (pix win t floats)]\<rparr>;
                 s2 = s1\<lparr>rendered_pixels := rendered_pixels s1 + take_x win t * take_y win t\<rparr>
             in if total_pixels s2 = 0 then Inl (ZeroDivisionError, s2)
                else Inr (True,
                  s2\<lparr>sink := sink s2 @ [Progress (rendered_pixels s2) (total_pixels s2)]\<rparr>)))"

definition process_tile_data_chunk ::
  "(nat \<Rightarrow> bool) \<Rightarrow> nat \<Rightarrow> window \<Rightarrow> state \<Rightarrow> ((error \<times> state) + (bool \<times> state)) option" where
  "process_tile_data_chunk brk fuel win s =
     (case os_read (5 * 4) s of (d, s1) \<Rightarrow>
        (case unpack 5 d of
           None \<Rightarrow> Some (Inl (StructError, s1))
         | Some tile_header \<Rightarrow>
             let t = \<lparr>tile_x = tile_header ! 0, tile_y = tile_header ! 1,
                      tile_w = tile_header ! 2, tile_h = tile_header ! 3\<rparr>;
                 tile_c = tile_header ! 4;
                 tile_size = tile_w t * tile_h t * tile_c * 4
             in (case read_tile_data brk fuel tile_size [] s1 of
                   None \<Rightarrow> None
                 | Some (tile_data, s2) \<Rightarrow>
                     (case test_break brk s2 of (b, s3) \<Rightarrow>
                        if b then Some (Inr (False, s3))
                        else Some (emit_tile_data win t tile_data s3)))))"

subsection \<open>Tile highlight chunks\<close>

definition draw_hline :: "int \<Rightarrow> int \<Rightarrow> int \<Rightarrow> float32 list \<Rightarrow> state \<Rightarrow> state" where
  "draw_hline x y len color s =
     s\<lparr>sink := sink s @ [Result x y len 1 (replicate (nat len) color)]\<rparr>"

definition draw_vline :: "int \<Rightarrow> int \<Rightarrow> int \<Rightarrow> float32 list \<Rightarrow> state \<Rightarrow> state" where
  "draw_vline x y len color s =
     s\<lparr>sink := sink s @ [Result x y 1 len (replicate (nat len) color)]\<rparr>"

text \<open>\<^verbatim>\<open>bracket_extent = 5\<close>; \<^verbatim>\<open>bracket_color = [1.0, 1.0, 1.0, 1.0]\<close>, \<open>1.0\<close> being \<open>0x3F800000\<close>.\<close>

definition bracket_extent :: int where
  "bracket_extent = 5"

definition bracket_color :: "float32 list" where
  "bracket_color = [0x3F800000, 0x3F800000, 0x3F800000, 0x3F800000]"

definition process_tile_highlight_chunk ::
  "window \<Rightarrow> state \<Rightarrow> (error \<times> state) + (bool \<times> state)" where
  "process_tile_highlight_chunk win s =
     (case os_read (4 * 4) s of (d, s1) \<Rightarrow>
        (case unpack 4 d of
           None \<Rightarrow> Inl (StructError, s1)
         | Some tile_header \<Rightarrow>
             let t = \<lparr>tile_x = tile_header ! 0, tile_y = tile_header ! 1,
                      tile_w = tile_header ! 2, tile_h = tile_header ! 3\<rparr>
             in if tile_x t > max_x win \<or> tile_x t + tile_w t - 1 < min_x win then Inr (True, s1)
                else if tile_y t > max_y win \<or> tile_y t + tile_h t - 1 < min_y win
                  then Inr (True, s1)
                else
                  let bracket_width = min bracket_extent (x1 win t - x0 win t + 1);
                      bracket_height = min bracket_extent (y1 win t - y0 win t + 1);
                      s2 = draw_hline (x0 win t) (y1 win t) bracket_width bracket_color s1;
                      s3 = draw_vline (x0 win t) (y1 win t - bracket_height + 1)
                             bracket_height bracket_color s2;
                      s4 = draw_hline (x1 win t - bracket_width + 1) (y1 win t)
                             bracket_width bracket_color s3;
                      s5 = draw_vline (x1 win t) (y1 win t - bracket_height + 1)
                             bracket_height bracket_color s4;
                      s6 = draw_hline (x0 win t) (y0 win t) bracket_width bracket_color s5;
                      s7 = draw_vline (x0 win t) (y0 win t) bracket_height bracket_color s6;
                      s8 = draw_hline (x1 win t - bracket_width + 1) (y0 win t)
                             bracket_width bracket_color s7;
                      s9 = draw_vline (x1 win t) (y0 win t) bracket_height bracket_color s8
                  in Inr (True, s9)))"

subsection \<open>The loop of \<^verbatim>\<open>__render_project_file\<close>\<close>

text \<open>
  ``Update while rendering'': one unit of fuel per test of the loop condition; the same
  fuel bounds the inner loop of a tile data chunk. \<open>Inl\<close> is an exception that leaves the
  loop (and the function), \<open>Inr\<close> the state in which the loop was left by its condition or
  by \<^verbatim>\<open>break\<close>.
\<close>

fun render_loop ::
  "(nat \<Rightarrow> bool) \<Rightarrow> nat \<Rightarrow> window \<Rightarrow> state \<Rightarrow> ((error \<times> state) + state) option" where
  "render_loop brk 0 win s = None"
| "render_loop brk (Suc fuel) win s =
     (case test_break brk s of (b, s1) \<Rightarrow>
        if b then Some (Inr s1)
        else
          (case os_read (2 * 4) s1 of (chunk_header_data, s2) \<Rightarrow>
             if chunk_header_data = [] then Some (Inr s2)
             else
               (case unpack 2 chunk_header_data of
                  None \<Rightarrow> Some (Inl (StructError, s2))
                | Some chunk_header \<Rightarrow>
                    let chunk_type = chunk_header ! 0;
                        chunk_size = chunk_header ! 1
                    in if chunk_type = 1 then
                         (case process_tile_data_chunk brk fuel win s2 of
                            None \<Rightarrow> None
                          | Some (Inl e) \<Rightarrow> Some (Inl e)
                          | Some (Inr (ok, s3)) \<Rightarrow>
                              if \<not> ok then Some (Inr s3) else render_loop brk fuel win s3)
                       else if chunk_type = 2 then
                         (case process_tile_highlight_chunk win s2 of
                            Inl e \<Rightarrow> Some (Inl e)
                          | Inr (ok, s3) \<Rightarrow>
                              if \<not> ok then Some (Inr s3) else render_loop brk fuel win s3)
                       else
                         (case os_read (nat chunk_size) s2 of (_, s3) \<Rightarrow>
                            render_loop brk fuel win s3))))"

text \<open>
  \<^verbatim>\<open>__render_project_file\<close> from ``Rendered pixel total'' to \<^verbatim>\<open>process.kill()\<close>, for a
  render window already computed and \<open>passes = scene.appleseed.renderer_passes\<close>. An
  exception raised in the loop propagates: \<^verbatim>\<open>process.kill()\<close> is then not reached.
\<close>

definition render_project_file ::
  "(nat \<Rightarrow> bool) \<Rightarrow> nat \<Rightarrow> window \<Rightarrow> int \<Rightarrow> state \<Rightarrow> ((error \<times> state) + state) option" where
  "render_project_file brk fuel win passes s =
     (let s0 = s\<lparr>rendered_pixels := 0,
                 total_pixels := (max_x win - min_x win + 1) * (max_y win - min_y win + 1) * passes\<rparr>
      in (case render_loop brk fuel win s0 of
            None \<Rightarrow> None
          | Some (Inl e) \<Rightarrow> Some (Inl e)
          | Some (Inr s1) \<Rightarrow> Some (Inr (s1\<lparr>killed := True\<rparr>))))"

text \<open>The window when no border is set: the whole image.\<close>

definition full_window :: "int \<Rightarrow> int \<Rightarrow> window" where
  "full_window width height = \<lparr>min_x = 0, min_y = 0, max_x = width - 1, max_y = height - 1\<rparr>"

section \<open>Notions used in the statements\<close>

text \<open>
  \<open>whole_read n s\<close>: the next \<^verbatim>\<open>os.read\<close> of \<open>n\<close> bytes is served in full, the stream holding
  that many bytes and the pipe offering them at once. \<open>advance n s\<close> is the pipe after it.
\<close>

definition whole_read :: "nat \<Rightarrow> state \<Rightarrow> bool" where
  "whole_read n s \<longleftrightarrow>
     n \<le> length (pending s) \<and> (case avail s of [] \<Rightarrow> True | c # _ \<Rightarrow> n \<le> Suc c)"

definition advance :: "nat \<Rightarrow> state \<Rightarrow> state" where
  "advance n s = s\<lparr>pending := drop n (pending s), avail := tl (avail s)\<rparr>"

text \<open>
  A tile fully inside the render window, in the words of the specification:
  \<open>tile_x \<ge> min_x\<close>, \<open>tile_y \<ge> min_y\<close>, \<open>tile_x + w - 1 \<le> max_x\<close>, \<open>tile_y + h - 1 \<le> max_y\<close>.
\<close>

definition fully_inside :: "window \<Rightarrow> tile \<Rightarrow> bool" where
  "fully_inside win t \<longleftrightarrow>
     tile_x t \<ge> min_x win \<and> tile_y t \<ge> min_y win \<and>
     tile_x t + tile_w t - 1 \<le> max_x win \<and> tile_y t + tile_h t - 1 \<le> max_y win"

text \<open>
  The rows of a tile as the specification lays them out: \<open>h\<close> rows of \<open>w\<close> pixels, row-major,
  each pixel \<open>c\<close> consecutive samples.
\<close>

definition tile_rows :: "nat \<Rightarrow> nat \<Rightarrow> nat \<Rightarrow> 'a list \<Rightarrow> 'a list list list" where
  "tile_rows c w h samples =
     map (\<lambda>r. map (\<lambda>x. take c (drop (c * (r * w + x)) samples)) [0..<w]) [0..<h]"

text \<open>
  The wire format of a tile data chunk, as appleseed.cli writes it: the chunk header
  \<open>type = 1\<close> and \<open>size\<close>, the tile header \<open>x y w h channels\<close>, each an unsigned 32-bit
  field in little-endian order, then the payload. \<open>wire_chunk\<close> says that the fields fit 32
  bits and that the payload has \<open>w * h * channels * 4\<close> bytes.
\<close>

definition u32 :: "int \<Rightarrow> bool" where
  "u32 n \<longleftrightarrow> 0 \<le> n \<and> n < 2 ^ 32"

definition le_bytes :: "int \<Rightarrow> byte list" where
  "le_bytes n =
     [word_of_int n, word_of_int (n div 2 ^ 8), word_of_int (n div 2 ^ 16),
      word_of_int (n div 2 ^ 24)]"

record data_chunk =
  size_field :: int
  chunk_tile :: tile
  channels :: int
  payload :: "byte list"

definition tile_data_chunk :: "data_chunk \<Rightarrow> byte list" where
  "tile_data_chunk ch =
     le_bytes 1 @ le_bytes (size_field ch) @
     le_bytes (tile_x (chunk_tile ch)) @ le_bytes (tile_y (chunk_tile ch)) @
     le_bytes (tile_w (chunk_tile ch)) @ le_bytes (tile_h (chunk_tile ch)) @
     le_bytes (channels ch) @ payload ch"

definition wire_chunk :: "data_chunk \<Rightarrow> bool" where
  "wire_chunk ch \<longleftrightarrow>
     u32 (size_field ch) \<and> u32 (tile_x (chunk_tile ch)) \<and> u32 (tile_y (chunk_tile ch)) \<and>
     u32 (tile_w (chunk_tile ch)) \<and> u32 (tile_h (chunk_tile ch)) \<and> u32 (channels ch) \<and>
     int (length (payload ch)) =
       tile_w (chunk_tile ch) * tile_h (chunk_tile ch) * channels ch * 4"

text \<open>
  Two tiles overlap when they share a pixel; the tiles of a list are non-overlapping when
  no two of them do. \<open>tile_pixels\<close> and \<open>window_pixels\<close> are the pixels themselves.
\<close>

definition overlap :: "tile \<Rightarrow> tile \<Rightarrow> bool" where
  "overlap a b \<longleftrightarrow>
     max (tile_x a) (tile_x b) < min (tile_x a + tile_w a) (tile_x b + tile_w b) \<and>
     max (tile_y a) (tile_y b) < min (tile_y a + tile_h a) (tile_y b + tile_h b)"

fun non_overlapping :: "tile list \<Rightarrow> bool" where
  "non_overlapping [] = True"
| "non_overlapping (t # ts) = ((\<forall>u \<in> set ts. \<not> overlap t u) \<and> non_overlapping ts)"

definition tile_pixels :: "tile \<Rightarrow> (int \<times> int) set" where
  "tile_pixels t =
     {tile_x t..<tile_x t + tile_w t} \<times> {tile_y t..<tile_y t + tile_h t}"

definition window_pixels :: "window \<Rightarrow> (int \<times> int) set" where
  "window_pixels win = {min_x win..max_x win} \<times> {min_y win..max_y win}"

text \<open>The numerators of the fractions passed to \<^verbatim>\<open>update_progress\<close>, in order.\<close>

fun reported :: "event list \<Rightarrow> int list" where
  "reported [] = []"
| "reported (Progress r t # es) = r # reported es"
| "reported (Result x y w h p # es) = reported es"

text \<open>A render that is never cancelled, and the 10 by 10 window of the examples.\<close>

definition never :: "nat \<Rightarrow> bool" where
  "never p = False"

definition example_window :: window where
  "example_window = \<lparr>min_x = 0, min_y = 0, max_x = 9, max_y = 9\<rparr>"

definition example_state :: "byte list \<Rightarrow> nat list \<Rightarrow> state" where
  "example_state bs sched =
     \<lparr>pending = bs, avail = sched, polls = 0, rendered_pixels = 0, total_pixels = 100,
      sink = [], killed = False\<rparr>"

text \<open>Two tiles of four channels side by side on the first row of the image.\<close>

definition example_chunks :: "data_chunk list" where
  "example_chunks =
     [\<lparr>size_field = 36, chunk_tile = \<lparr>tile_x = 0, tile_y = 0, tile_w = 1, tile_h = 1\<rparr>,
       channels = 4, payload = replicate 16 0\<rparr>,
      \<lparr>size_field = 52, chunk_tile = \<lparr>tile_x = 1, tile_y = 0, tile_w = 2, tile_h = 1\<rparr>,
       channels = 4, payload = replicate 32 0\<rparr>]"

section \<open>Reading from the pipe\<close>

lemma os_read_whole: "whole_read n s \<Longrightarrow> os_read n s = (take n (pending s), advance n s)"
  by (auto simp: whole_read_def os_read_def advance_def Let_def min_def split: list.splits)

lemma os_read_cases:
  obtains k where "k \<le> n" "os_read n s = (take k (pending s), s\<lparr>pending := drop k (pending s), avail := tl (avail s)\<rparr>)"
    "pending s \<noteq> [] \<Longrightarrow> 0 < n \<Longrightarrow> 0 < k" "k \<le> length (pending s)"
proof -
  let ?m = "(case avail s of [] \<Rightarrow> length (pending s) | c # _ \<Rightarrow> Suc c)"
  let ?k = "min (min n ?m) (length (pending s))"
  have pos: "pending s \<noteq> [] \<Longrightarrow> 0 < ?m" by (simp split: list.splits)
  have "os_read n s = (take ?k (pending s), s\<lparr>pending := drop ?k (pending s), avail := tl (avail s)\<rparr>)"
    by (simp add: os_read_def Let_def min_def)
  moreover have "?k \<le> n" by simp
  moreover have "pending s \<noteq> [] \<Longrightarrow> 0 < n \<Longrightarrow> 0 < ?k" using pos by simp
  moreover have "?k \<le> length (pending s)" by simp
  ultimately show ?thesis using that by blast
qed

lemma read_tile_data_starved:
  "\<forall>p. \<not> brk p \<Longrightarrow> int (length tile_data + length (pending s)) < tile_size \<Longrightarrow>
   read_tile_data brk fuel tile_size tile_data s = None"
proof (induction fuel arbitrary: tile_data s)
  case 0
  then show ?case by simp
next
  case (Suc fuel)
  let ?s1 = "s\<lparr>polls := Suc (polls s)\<rparr>"
  obtain k where k: "k \<le> length (pending ?s1)"
    "os_read (nat (tile_size - int (length tile_data))) ?s1 =
       (take k (pending ?s1), ?s1\<lparr>pending := drop k (pending ?s1), avail := tl (avail ?s1)\<rparr>)"
    by (rule os_read_cases)
  have nb: "\<not> brk (polls s)" using Suc.prems(1) by blast
  have lk: "length (take k (pending s)) = k" using k(1) by simp
  have "read_tile_data brk fuel tile_size (tile_data @ take k (pending s))
          (?s1\<lparr>pending := drop k (pending ?s1), avail := tl (avail ?s1)\<rparr>) = None"
  proof (rule Suc.IH)
    show "\<forall>p. \<not> brk p" by (rule Suc.prems(1))
    show "int (length (tile_data @ take k (pending s)) +
            length (pending (?s1\<lparr>pending := drop k (pending ?s1), avail := tl (avail ?s1)\<rparr>)))
          < tile_size"
      using Suc.prems(2) k(1) lk by simp
  qed
  moreover have "int (length tile_data) < tile_size" using Suc.prems(2) by simp
  ultimately show ?case using nb k(2)
    by (simp add: test_break_def)
qed

lemma read_tile_data_complete:
  assumes "\<forall>p. \<not> brk p"
  shows "int (length tile_data) \<le> tile_size \<Longrightarrow>
    nat (tile_size - int (length tile_data)) \<le> length (pending s) \<Longrightarrow>
    nat (tile_size - int (length tile_data)) < fuel \<Longrightarrow>
    \<exists>s'. read_tile_data brk fuel tile_size tile_data s =
            Some (tile_data @ take (nat (tile_size - int (length tile_data))) (pending s), s') \<and>
         pending s' = drop (nat (tile_size - int (length tile_data))) (pending s) \<and>
         (\<exists>j. avail s' = drop j (avail s)) \<and>
         sink s' = sink s \<and> rendered_pixels s' = rendered_pixels s \<and>
         total_pixels s' = total_pixels s \<and> killed s' = killed s"
proof (induction fuel arbitrary: tile_data s)
  case 0
  then show ?case by simp
next
  case (Suc fuel)
  let ?n = "nat (tile_size - int (length tile_data))"
  show ?case
  proof (cases "int (length tile_data) < tile_size")
    case False
    with Suc.prems have "?n = 0" by simp
    with False show ?thesis
      by (auto intro: exI [of _ 0])
  next
    case True
    let ?s1 = "s\<lparr>polls := Suc (polls s)\<rparr>"
    have ne: "pending ?s1 \<noteq> []" "0 < ?n" using True Suc.prems by auto
    obtain k where k: "k \<le> ?n" "k \<le> length (pending ?s1)" "0 < k"
      "os_read ?n ?s1 =
         (take k (pending ?s1), ?s1\<lparr>pending := drop k (pending ?s1), avail := tl (avail ?s1)\<rparr>)"
      using ne by (auto intro: os_read_cases [of ?n ?s1])
    let ?s2 = "?s1\<lparr>pending := drop k (pending ?s1), avail := tl (avail ?s1)\<rparr>"
    let ?d = "tile_data @ take k (pending s)"
    have nb: "\<not> brk (polls s)" using assms by blast
    have lk: "length (take k (pending s)) = k" using k(2) by simp
    have len: "nat (tile_size - int (length ?d)) = ?n - k"
      using k(1) lk by simp
    have "\<exists>s'. read_tile_data brk fuel tile_size ?d ?s2 =
            Some (?d @ take (nat (tile_size - int (length ?d))) (pending ?s2), s') \<and>
         pending s' = drop (nat (tile_size - int (length ?d))) (pending ?s2) \<and>
         (\<exists>j. avail s' = drop j (avail ?s2)) \<and>
         sink s' = sink ?s2 \<and> rendered_pixels s' = rendered_pixels ?s2 \<and>
         total_pixels s' = total_pixels ?s2 \<and> killed s' = killed ?s2"
    proof (rule Suc.IH)
      show "int (length ?d) \<le> tile_size" using k(1) lk True by simp
      show "nat (tile_size - int (length ?d)) \<le> length (pending ?s2)"
        unfolding len using Suc.prems(2) by simp
      show "nat (tile_size - int (length ?d)) < fuel"
        unfolding len using Suc.prems(3) k(3) ne(2) by arith
    qed
    then obtain s' j where s': "read_tile_data brk fuel tile_size ?d ?s2 =
            Some (?d @ take (?n - k) (drop k (pending s)), s')"
         "pending s' = drop (?n - k) (drop k (pending s))"
         "avail s' = drop j (tl (avail s))"
         "sink s' = sink s" "rendered_pixels s' = rendered_pixels s"
         "total_pixels s' = total_pixels s" "killed s' = killed s"
      unfolding len by auto
    have tk: "take k (pending s) @ take (?n - k) (drop k (pending s)) = take ?n (pending s)"
      using k(1) by (metis le_add_diff_inverse take_add)
    have "read_tile_data brk (Suc fuel) tile_size tile_data s =
            Some (tile_data @ take ?n (pending s), s')"
      using True nb k(4) s'(1) tk by (simp add: test_break_def)
    moreover have "pending s' = drop ?n (pending s)"
      using s'(2) k(1) by simp
    moreover have "avail s' = drop (Suc j) (avail s)"
      using s'(3) by (simp add: drop_Suc)
    ultimately show ?thesis using s'(4-) by blast
  qed
qed

section \<open>A tile data chunk that arrives complete\<close>

lemma advance_simps [simp]:
  "pending (advance n s) = drop n (pending s)"
  "avail (advance n s) = tl (avail s)"
  "polls (advance n s) = polls s"
  "sink (advance n s) = sink s"
  "rendered_pixels (advance n s) = rendered_pixels s"
  "total_pixels (advance n s) = total_pixels s"
  "killed (advance n s) = killed s"
  by (simp_all add: advance_def)

lemma le_int_nonneg: "0 \<le> le_int bs"
  by (induction bs) simp_all

lemma unpack_Some:
  assumes "unpack k d = Some xs"
  shows "length d = 4 * k" and "length xs = k" and "\<forall>v \<in> set xs. 0 \<le> v"
  using assms by (auto simp: unpack_def le_int_nonneg split: if_splits)

lemma process_tile_data_chunk_complete:
  assumes nb: "\<forall>p. \<not> brk p"
    and hd: "whole_read 20 s" "unpack 5 (take 20 (pending s)) = Some [x, y, w, h, c]"
    and len: "20 + nat (w * h * c * 4) \<le> length (pending s)"
    and fuel: "nat (w * h * c * 4) < fuel"
  shows "\<exists>s'. process_tile_data_chunk brk fuel win s =
            Some (emit_tile_data win \<lparr>tile_x = x, tile_y = y, tile_w = w, tile_h = h\<rparr>
                    (take (nat (w * h * c * 4)) (drop 20 (pending s))) s') \<and>
          pending s' = drop (20 + nat (w * h * c * 4)) (pending s) \<and>
          (\<exists>j. avail s' = drop j (avail s)) \<and>
          sink s' = sink s \<and> rendered_pixels s' = rendered_pixels s \<and>
          total_pixels s' = total_pixels s \<and> killed s' = killed s"
proof -
  let ?n = "w * h * c * 4"
  let ?s1 = "advance 20 s"
  have nonneg: "0 \<le> ?n"
    using unpack_Some(3) [OF hd(2)] by simp
  have rd: "os_read 20 s = (take 20 (pending s), ?s1)"
    using hd(1) by (rule os_read_whole)
  have "\<exists>s'. read_tile_data brk fuel ?n [] ?s1 =
            Some ([] @ take (nat (?n - int (length ([]::byte list)))) (pending ?s1), s') \<and>
         pending s' = drop (nat (?n - int (length ([]::byte list)))) (pending ?s1) \<and>
         (\<exists>j. avail s' = drop j (avail ?s1)) \<and>
         sink s' = sink ?s1 \<and> rendered_pixels s' = rendered_pixels ?s1 \<and>
         total_pixels s' = total_pixels ?s1 \<and> killed s' = killed ?s1"
    using nonneg len fuel by (intro read_tile_data_complete [OF nb]) simp_all
  then obtain s2 j where s2:
    "read_tile_data brk fuel ?n [] ?s1 = Some (take (nat ?n) (drop 20 (pending s)), s2)"
    "pending s2 = drop (nat ?n) (drop 20 (pending s))"
    "avail s2 = drop j (tl (avail s))"
    "sink s2 = sink s" "rendered_pixels s2 = rendered_pixels s"
    "total_pixels s2 = total_pixels s" "killed s2 = killed s"
    by auto
  let ?s3 = "s2\<lparr>polls := Suc (polls s2)\<rparr>"
  have nb2: "\<not> brk (polls s2)" using nb by blast
  have "process_tile_data_chunk brk fuel win s =
          Some (emit_tile_data win \<lparr>tile_x = x, tile_y = y, tile_w = w, tile_h = h\<rparr>
                    (take (nat ?n) (drop 20 (pending s))) ?s3)"
    using rd hd(2) s2(1) nb2 by (simp add: process_tile_data_chunk_def test_break_def)
  moreover have "pending ?s3 = drop (20 + nat ?n) (pending s)"
    using s2(2) by (simp add: add.commute)
  moreover have "avail ?s3 = drop (Suc j) (avail s)"
    using s2(3) by (simp add: drop_Suc)
  ultimately show ?thesis using s2(4-) 
    by (intro exI [of _ ?s3]) auto
qed

lemma emit_tile_data_outside:
  "outside win t \<Longrightarrow> emit_tile_data win t tile_data s = Inr (True, s)"
  by (auto simp: emit_tile_data_def outside_def)

lemma emit_tile_data_inside:
  assumes "\<not> outside win t" and "fromstring tile_data = Some floats" and "total_pixels s \<noteq> 0"
  shows "emit_tile_data win t tile_data s =
     Inr (True, s\<lparr>sink := sink s @
                    [Result (x0 win t) (y0 win t) (take_x win t) (take_y win t) (pix win t floats),
                     Progress (rendered_pixels s + take_x win t * take_y win t) (total_pixels s)],
                  rendered_pixels := rendered_pixels s + take_x win t * take_y win t\<rparr>)"
  using assms by (auto simp: emit_tile_data_def outside_def Let_def)

section \<open>The pixel list of a tile inside the window\<close>

lemma upto_conv_map: "[i..j] = map (\<lambda>k. i + int k) [0..<nat (j - i + 1)]"
  by (rule nth_equalityI) simp_all

lemma py_slice_pixel:
  "py_slice xs (int p * 4) (int p * 4 + 4) = take 4 (drop (4 * p) xs)"
proof -
  have n: "nat (int p * 4) = p * 4" by linarith
  show ?thesis
  proof (cases "4 * p + 4 \<le> length xs")
    case True
    then show ?thesis
      by (simp add: py_slice_def Let_def min_def n mult.commute)
  next
    case False
    then show ?thesis
      by (cases "4 * p \<le> length xs") (auto simp: py_slice_def Let_def min_def n mult.commute)
  qed
qed

lemma concat_map_Nil: "concat (map (\<lambda>y. []) ys) = []"
  by (induction ys) simp_all

lemma fully_inside_take:
  "fully_inside win t \<Longrightarrow>
     take_x win t = tile_w t \<and> take_y win t = tile_h t \<and> skip_x win t = 0 \<and> skip_y win t = 0"
  by (auto simp: fully_inside_def take_x_def take_y_def skip_x_def skip_y_def
      ix0_def ix1_def iy0_def iy1_def)

lemma pix_fully_inside:
  assumes "fully_inside win t"
  shows "pix win t floats = concat (rev (tile_rows 4 (nat (tile_w t)) (nat (tile_h t)) floats))"
proof (cases "0 \<le> tile_w t")
  case True
  note fi = fully_inside_take [OF assms]
  have row: "map (\<lambda>p. py_slice floats (p * 4) (p * 4 + 4))
               [int r * tile_w t..int r * tile_w t + tile_w t - 1] =
             map (\<lambda>x. take 4 (drop (4 * (r * nat (tile_w t) + x)) floats)) [0..<nat (tile_w t)]"
    for r
  proof -
    have "int r * tile_w t + int k = int (r * nat (tile_w t) + k)" for k
      using True by simp
    then show ?thesis
      unfolding upto_conv_map [of "int r * tile_w t"]
      by (simp add: py_slice_pixel del: of_nat_add of_nat_mult)
  qed
  have "pix win t floats =
          concat (map (\<lambda>y. map (\<lambda>p. py_slice floats (p * 4) (p * 4 + 4))
                     [y * tile_w t..y * tile_w t + tile_w t - 1]) (rev [0..tile_h t - 1]))"
    by (simp add: pix_def fi Let_def)
  also have "[0..tile_h t - 1] = map int [0..<nat (tile_h t)]"
    unfolding upto_conv_map [of 0] by simp
  finally show ?thesis
    by (simp add: tile_rows_def rev_map o_def row)
next
  case False
  then have "nat (tile_w t) = 0" "[a..a + tile_w t - 1] = []" for a by simp_all
  then show ?thesis
    by (simp add: pix_def fully_inside_take [OF assms] Let_def tile_rows_def rev_map
        concat_map_Nil)
qed

section \<open>The loop over the chunks\<close>

lemma whole_read_polls [simp]: "whole_read n (s\<lparr>polls := p\<rparr>) = whole_read n s"
  by (simp add: whole_read_def)

lemma render_loop_chunk:
  assumes "\<not> brk (polls s)" and "whole_read 8 s"
    and "unpack 2 (take 8 (pending s)) = Some [ty, sz]"
  shows "render_loop brk (Suc fuel) win s =
     (let s2 = advance 8 (s\<lparr>polls := Suc (polls s)\<rparr>)
      in if ty = 1 then
           (case process_tile_data_chunk brk fuel win s2 of
              None \<Rightarrow> None
            | Some (Inl e) \<Rightarrow> Some (Inl e)
            | Some (Inr (ok, s3)) \<Rightarrow>
                if \<not> ok then Some (Inr s3) else render_loop brk fuel win s3)
         else if ty = 2 then
           (case process_tile_highlight_chunk win s2 of
              Inl e \<Rightarrow> Some (Inl e)
            | Inr (ok, s3) \<Rightarrow>
                if \<not> ok then Some (Inr s3) else render_loop brk fuel win s3)
         else render_loop brk fuel win (snd (os_read (nat sz) s2)))"
proof -
  let ?s1 = "s\<lparr>polls := Suc (polls s)\<rparr>"
  have rd: "os_read (2 * 4) ?s1 = (take 8 (pending s), advance 8 ?s1)"
    using os_read_whole [of 8 ?s1] assms(2) by simp
  have ne: "take 8 (pending s) \<noteq> []"
    using assms(2) by (auto simp: whole_read_def)
  show ?thesis
    using assms(1,3) rd ne
    by (simp add: test_break_def Let_def split: prod.splits)
qed

lemma process_tile_data_chunk_starved:
  assumes "\<forall>p. \<not> brk p" and "whole_read 20 s"
    and "unpack 5 (take 20 (pending s)) = Some [x, y, w, h, c]"
    and "int (length (pending s)) < 20 + w * h * c * 4"
  shows "process_tile_data_chunk brk fuel win s = None"
proof -
  have rd: "os_read 20 s = (take 20 (pending s), advance 20 s)"
    using assms(2) by (rule os_read_whole)
  have "20 \<le> length (pending s)" using assms(2) by (simp add: whole_read_def)
  then have "int (length ([]::byte list) + length (pending (advance 20 s))) < w * h * c * 4"
    using assms(4) by simp
  then have "read_tile_data brk fuel (w * h * c * 4) [] (advance 20 s) = None"
    by (rule read_tile_data_starved [OF assms(1)])
  then show ?thesis
    using rd assms(3) by (simp add: process_tile_data_chunk_def)
qed

lemma render_loop_unknown:
  assumes "\<not> brk (polls s)" and "whole_read 8 s"
    and "unpack 2 (take 8 (pending s)) = Some [ty, sz]"
    and "ty \<noteq> 1" and "ty \<noteq> 2"
    and "whole_read (nat sz) (advance 8 s)"
  shows "render_loop brk (Suc fuel) win s =
           render_loop brk fuel win (advance (nat sz) (advance 8 (s\<lparr>polls := Suc (polls s)\<rparr>)))"
proof -
  have "whole_read (nat sz) (advance 8 (s\<lparr>polls := Suc (polls s)\<rparr>))"
    using assms(6) by (simp add: whole_read_def)
  then show ?thesis
    unfolding render_loop_chunk [of brk s, OF assms(1-3)]
    using assms(4,5) by (simp add: Let_def os_read_whole)
qed

text \<open>
  Claim C1 fails on the code. Only the payload of a tile data chunk is read in a loop; the
  chunk header and the two tile headers are each taken from a single \<^verbatim>\<open>os.read\<close> and handed
  to \<^verbatim>\<open>struct.unpack\<close> as they come. Here the pipe holds the first four bytes of a chunk
  header when the loop reads it, the other bytes being written later: \<^verbatim>\<open>struct.unpack\<close>
  raises on the short buffer, the exception leaves \<^verbatim>\<open>__render_project_file\<close>, and
  \<^verbatim>\<open>process.kill()\<close> is not reached.
\<close>

theorem split_chunk_header_raises:
  "render_project_file never 10 example_window 1
     (example_state [2,0,0,0, 16,0,0,0, 0,0,0,0, 0,0,0,0, 3,0,0,0, 3,0,0,0] [3]) =
   Some (Inl (StructError,
     (example_state [16,0,0,0, 0,0,0,0, 0,0,0,0, 3,0,0,0, 3,0,0,0] [])\<lparr>polls := 1\<rparr>))"
  by code_simp

text \<open>
  Claim C2 fails on the code. The stream holds the header of a 4 by 4 tile of one channel
  (64 payload bytes) and closes after 32 of them; the render is never cancelled. At the
  end of the stream \<^verbatim>\<open>os.read\<close> returns the empty buffer, the loop ``Read tile data'' adds
  nothing and goes round again: whatever the fuel, the function has not returned.
\<close>

theorem truncated_payload_never_returns:
  "render_project_file never fuel example_window 1
      (example_state [1,0,0,0, 84,0,0,0, 0,0,0,0, 0,0,0,0, 4,0,0,0, 4,0,0,0, 1,0,0,0,
                      5,53,175,120, 139,232,148,138, 202,89,50,85, 194,126,132,212, 115,92,143,17, 216,238,83,2, 246,62,203,167, 205,66,1,10] [])
    = None"
proof -
  let ?bs = "[1,0,0,0, 84,0,0,0, 0,0,0,0, 0,0,0,0, 4,0,0,0, 4,0,0,0, 1,0,0,0,
                      5,53,175,120, 139,232,148,138, 202,89,50,85, 194,126,132,212, 115,92,143,17, 216,238,83,2, 246,62,203,167, 205,66,1,10] :: byte list"
  let ?s = "example_state ?bs []"
  let ?s0 = "?s\<lparr>rendered_pixels := 0,
       total_pixels := (max_x example_window - min_x example_window + 1) *
                       (max_y example_window - min_y example_window + 1) * 1\<rparr>"
  have nb: "\<forall>p. \<not> never p" by (simp add: never_def)
  have loop: "render_loop never fuel example_window ?s0 = None"
  proof (cases fuel)
    case 0
    then show ?thesis by simp
  next
    case (Suc n)
    let ?s2 = "advance 8 (?s0\<lparr>polls := Suc (polls ?s0)\<rparr>)"
    have a: "\<not> never (polls ?s0)" by (simp add: never_def)
    have b: "whole_read 8 ?s0" by code_simp
    have c: "unpack 2 (take 8 (pending ?s0)) = Some [1, 84]" by code_simp
    have d: "whole_read 20 ?s2" by code_simp
    have e: "unpack 5 (take 20 (pending ?s2)) = Some [0, 0, 4, 4, 1]" by code_simp
    have f: "int (length (pending ?s2)) < 20 + 4 * 4 * 1 * 4" by code_simp
    have "process_tile_data_chunk never n example_window ?s2 = None"
      by (rule process_tile_data_chunk_starved [OF nb d e f])
    then show ?thesis
      unfolding Suc render_loop_chunk [of never ?s0 1 84, OF a b c] by (simp add: Let_def)
  qed
  show ?thesis
    using loop by (simp add: render_project_file_def Let_def)
qed

text \<open>
  Claim C6 fails on the code. The payload of an unknown chunk is skipped with one
  \<^verbatim>\<open>os.read\<close>; \<open>render_loop_unknown\<close> above is the case where that read is served in
  full. Here the stream is an unknown chunk (type 99, size 12) followed by a tile highlight
  chunk for a 3 by 3 tile inside the window, and the pipe holds eight of the twelve
  payload bytes when they are read. The last four payload bytes and the type of the next
  chunk are then taken for a chunk header, the highlight is never drawn, and the run ends in
  \<^verbatim>\<open>struct.error\<close> on the four bytes that are left.
\<close>

theorem split_unknown_payload_loses_next_chunk:
  "render_project_file never 10 example_window 1
     (example_state [99,0,0,0, 12,0,0,0, 0,0,0,0, 0,0,0,0, 2,0,0,0,
                     2,0,0,0, 16,0,0,0, 0,0,0,0, 0,0,0,0, 3,0,0,0, 3,0,0,0] [7, 7]) =
   Some (Inl (StructError, (example_state [] [])\<lparr>polls := 3\<rparr>))"
  by code_simp

section \<open>The wire format\<close>

lemma length_le_bytes [simp]: "length (le_bytes n) = 4"
  by (simp add: le_bytes_def)

lemma le_int_le_bytes: "u32 n \<Longrightarrow> le_int (le_bytes n) = n"
proof -
  assume "u32 n"
  then have r: "0 \<le> n" "n < 4294967296" by (simp_all add: u32_def)
  have u: "uint (word_of_int k :: byte) = k mod 256" for k
    by (simp add: uint_word_of_int)
  have d: "n div 65536 = n div 256 div 256" "n div 16777216 = n div 256 div 256 div 256"
    by (simp_all add: div_mult2_eq [symmetric])
  have s: "n div 256 div 256 div 256 mod 256 = n div 256 div 256 div 256"
    using r by (simp add: d [symmetric])
  have "n mod 256 + 256 * (n div 256 mod 256 + 256 * (n div 256 div 256 mod 256 + 256 * (n div 256 div 256 div 256))) = n"
    by (simp only: mod_mult_div_eq)
  then show ?thesis
    unfolding le_bytes_def by (simp add: u d s)
qed

lemma unpack_le_bytes_2:
  "u32 a \<Longrightarrow> u32 b \<Longrightarrow> unpack 2 (le_bytes a @ le_bytes b) = Some [a, b]"
  by (simp add: unpack_def le_int_le_bytes eval_nat_numeral upt_rec)

lemma unpack_le_bytes_5:
  "u32 a \<Longrightarrow> u32 b \<Longrightarrow> u32 c \<Longrightarrow> u32 d \<Longrightarrow> u32 e \<Longrightarrow>
   unpack 5 (le_bytes a @ le_bytes b @ le_bytes c @ le_bytes d @ le_bytes e) = Some [a, b, c, d, e]"
  by (simp add: unpack_def le_int_le_bytes eval_nat_numeral upt_rec)

lemma fromstring_Some: "length d mod 4 = 0 \<Longrightarrow> \<exists>floats. fromstring d = Some floats"
  by (simp add: fromstring_def)

section \<open>A stream of tile data chunks\<close>

lemma render_loop_end:
  assumes "\<not> brk (polls s)" and "pending s = []"
  shows "render_loop brk (Suc fuel) win s =
           Some (Inr (s\<lparr>polls := Suc (polls s), avail := tl (avail s)\<rparr>))"
proof -
  have "s\<lparr>polls := Suc (polls s), pending := [], avail := tl (avail s)\<rparr> =
        s\<lparr>polls := Suc (polls s), avail := tl (avail s)\<rparr>"
    using assms(2) by simp
  then show ?thesis
    using assms by (simp add: test_break_def os_read_def Let_def)
qed

lemma fully_inside_outside_area:
  assumes "fully_inside win t" and "outside win t" and "0 \<le> tile_w t" and "0 \<le> tile_h t"
  shows "tile_w t * tile_h t = 0"
proof -
  have "tile_w t \<le> 0 \<or> tile_h t \<le> 0"
    using assms(1,2) by (auto simp: fully_inside_def outside_def)
  then show ?thesis using assms(3,4) by auto
qed

lemma fully_inside_window:
  assumes "fully_inside win t" and "\<not> outside win t"
  shows "min_x win \<le> max_x win" and "min_y win \<le> max_y win"
  using assms by (auto simp: fully_inside_def outside_def)

lemma render_loop_tile_data_chunk:
  assumes nb: "\<forall>p. \<not> brk p" and av: "avail s = []"
    and pd: "pending s = tile_data_chunk ch @ rest"
    and wc: "wire_chunk ch" and fi: "fully_inside win (chunk_tile ch)"
    and tp: "total_pixels s = (max_x win - min_x win + 1) * (max_y win - min_y win + 1) * passes"
    and ps: "1 \<le> passes"
    and fl: "length (pending s) \<le> fuel"
  shows "\<exists>s' evs. render_loop brk (Suc fuel) win s = render_loop brk fuel win s' \<and>
      avail s' = [] \<and> pending s' = rest \<and> total_pixels s' = total_pixels s \<and>
      killed s' = killed s \<and>
      rendered_pixels s' =
        rendered_pixels s + tile_w (chunk_tile ch) * tile_h (chunk_tile ch) \<and>
      sink s' = sink s @ evs \<and>
      (reported evs = [] \<or>
       reported evs = [rendered_pixels s'] \<and> 0 < total_pixels s \<and>
       min_x win \<le> max_x win \<and> min_y win \<le> max_y win) \<and>
      (\<forall>r t. Progress r t \<in> set evs \<longrightarrow> r = rendered_pixels s' \<and> t = total_pixels s)"
proof -
  let ?t = "chunk_tile ch"
  let ?n = "tile_w ?t * tile_h ?t * channels ch * 4"
  let ?s2 = "advance 8 (s\<lparr>polls := Suc (polls s)\<rparr>)"
  have u: "u32 (size_field ch)" "u32 (tile_x ?t)" "u32 (tile_y ?t)" "u32 (tile_w ?t)"
    "u32 (tile_h ?t)" "u32 (channels ch)" and lp: "int (length (payload ch)) = ?n"
    using wc by (simp_all add: wire_chunk_def)
  have u1: "u32 1" by (simp add: u32_def)
  have lpn: "length (payload ch) = nat ?n" using lp by simp
  have nb0: "\<not> brk (polls s)" using nb by blast
  have w8: "whole_read 8 s"
    by (simp add: whole_read_def av pd tile_data_chunk_def)
  have h8: "unpack 2 (take 8 (pending s)) = Some [1, size_field ch]"
    using unpack_le_bytes_2 [OF u1 u(1)] by (simp add: pd tile_data_chunk_def)
  have p2: "pending ?s2 =
      (le_bytes (tile_x ?t) @ le_bytes (tile_y ?t) @ le_bytes (tile_w ?t) @
       le_bytes (tile_h ?t) @ le_bytes (channels ch)) @ payload ch @ rest"
    by (simp add: pd tile_data_chunk_def)
  have a2: "avail ?s2 = []" by (simp add: av)
  have w20: "whole_read 20 ?s2"
    by (simp add: whole_read_def a2 p2 del: advance_simps)
  have h20: "unpack 5 (take 20 (pending ?s2)) =
      Some [tile_x ?t, tile_y ?t, tile_w ?t, tile_h ?t, channels ch]"
    using unpack_le_bytes_5 [OF u(2-6)] by (simp add: p2 del: advance_simps)
  have l2: "20 + nat ?n \<le> length (pending ?s2)"
    by (simp add: p2 lpn del: advance_simps)
  have "length (pending s) = 28 + nat ?n + length rest"
    by (simp add: pd tile_data_chunk_def lpn)
  then have f2: "nat ?n < fuel" using fl by simp
  have pl: "take (nat ?n) (drop 20 (pending ?s2)) = payload ch"
    by (simp add: p2 lpn del: advance_simps)
  have dr: "drop (20 + nat ?n) (pending ?s2) = rest"
    by (simp add: p2 lpn del: advance_simps)
  have te: "\<lparr>tile_x = tile_x ?t, tile_y = tile_y ?t, tile_w = tile_w ?t, tile_h = tile_h ?t\<rparr> = ?t"
    by simp
  have "\<exists>s'. process_tile_data_chunk brk fuel win ?s2 =
            Some (emit_tile_data win ?t (payload ch) s') \<and>
          pending s' = rest \<and> (\<exists>j. avail s' = drop j (avail ?s2)) \<and>
          sink s' = sink ?s2 \<and> rendered_pixels s' = rendered_pixels ?s2 \<and>
          total_pixels s' = total_pixels ?s2 \<and> killed s' = killed ?s2"
    using process_tile_data_chunk_complete [OF nb w20 h20 l2 f2, of win]
    unfolding pl dr te .
  then obtain s3 j where s3':
    "process_tile_data_chunk brk fuel win ?s2 = Some (emit_tile_data win ?t (payload ch) s3)"
    "pending s3 = rest" "avail s3 = drop j (avail ?s2)"
    "sink s3 = sink ?s2" "rendered_pixels s3 = rendered_pixels ?s2"
    "total_pixels s3 = total_pixels ?s2" "killed s3 = killed ?s2"
    by blast
  have s3:
    "process_tile_data_chunk brk fuel win ?s2 = Some (emit_tile_data win ?t (payload ch) s3)"
    "pending s3 = rest" "avail s3 = drop j (avail ?s2)"
    "sink s3 = sink s" "rendered_pixels s3 = rendered_pixels s"
    "total_pixels s3 = total_pixels s" "killed s3 = killed s"
    using s3' by simp_all
  have a3: "avail s3 = []" using s3(3) a2 by simp
  have step: "render_loop brk (Suc fuel) win s =
      (case Some (emit_tile_data win ?t (payload ch) s3) of
              None \<Rightarrow> None
            | Some (Inl e) \<Rightarrow> Some (Inl e)
            | Some (Inr (ok, s3)) \<Rightarrow>
                if \<not> ok then Some (Inr s3) else render_loop brk fuel win s3)"
    unfolding render_loop_chunk [of brk s 1 "size_field ch", OF nb0 w8 h8] Let_def s3(1)
    by simp
  show ?thesis
  proof (cases "outside win ?t")
    case True
    have "0 \<le> tile_w ?t" "0 \<le> tile_h ?t" using u by (simp_all add: u32_def)
    then have ar: "tile_w ?t * tile_h ?t = 0"
      using fully_inside_outside_area [OF fi True] by simp
    have "render_loop brk (Suc fuel) win s = render_loop brk fuel win s3"
      unfolding step by (simp add: emit_tile_data_outside [OF True])
    then show ?thesis
      using s3 a3 ar by (intro exI [of _ s3] exI [of _ "[]"]) simp
  next
    case False
    note wn = fully_inside_window [OF fi False]
    have "0 < max_x win - min_x win + 1" "0 < max_y win - min_y win + 1" "0 < passes"
      using wn ps by simp_all
    then have "0 < (max_x win - min_x win + 1) * (max_y win - min_y win + 1) * passes"
      by (simp only: mult_pos_pos)
    then have tpos: "0 < total_pixels s" using tp by simp
    have "int (length (payload ch) mod 4) = 0"
      unfolding zmod_int lp by simp
    then have "length (payload ch) mod 4 = 0" by simp
    then obtain floats where fs: "fromstring (payload ch) = Some floats"
      using fromstring_Some [of "payload ch"] by auto
    let ?a = "take_x win ?t * take_y win ?t"
    let ?evs = "[Result (x0 win ?t) (y0 win ?t) (take_x win ?t) (take_y win ?t)
                   (pix win ?t floats),
                 Progress (rendered_pixels s3 + ?a) (total_pixels s3)]"
    let ?s4 = "s3\<lparr>sink := sink s3 @ ?evs, rendered_pixels := rendered_pixels s3 + ?a\<rparr>"
    have em: "emit_tile_data win ?t (payload ch) s3 = Inr (True, ?s4)"
      using tpos s3(6) by (intro emit_tile_data_inside [OF False fs]) simp
    have ar: "?a = tile_w ?t * tile_h ?t"
      using fully_inside_take [OF fi] by simp
    have "render_loop brk (Suc fuel) win s = render_loop brk fuel win ?s4"
      unfolding step em by simp
    then show ?thesis
      using s3 a3 ar tpos wn by (intro exI [of _ ?s4] exI [of _ ?evs]) simp
  qed
qed

section \<open>Tiles that do not overlap\<close>

lemma reported_append: "reported (es @ fs) = reported es @ reported fs"
  by (induction es rule: reported.induct) simp_all

lemma set_reported: "r \<in> set (reported es) \<longleftrightarrow> (\<exists>t. Progress r t \<in> set es)"
  by (induction es rule: reported.induct) auto

lemma finite_tile_pixels: "finite (tile_pixels t)"
  by (simp add: tile_pixels_def)

lemma card_tile_pixels:
  "0 \<le> tile_w t \<Longrightarrow> 0 \<le> tile_h t \<Longrightarrow> int (card (tile_pixels t)) = tile_w t * tile_h t"
  by (simp add: tile_pixels_def card_cartesian_product)

lemma card_window_pixels:
  "min_x win \<le> max_x win \<Longrightarrow> min_y win \<le> max_y win \<Longrightarrow>
   int (card (window_pixels win)) = (max_x win - min_x win + 1) * (max_y win - min_y win + 1)"
  by (simp add: window_pixels_def card_cartesian_product)

lemma tile_pixels_disjoint: "\<not> overlap a b \<Longrightarrow> tile_pixels a \<inter> tile_pixels b = {}"
  by (auto simp: overlap_def tile_pixels_def)

lemma tile_pixels_window: "fully_inside win t \<Longrightarrow> tile_pixels t \<subseteq> window_pixels win"
  by (auto simp: fully_inside_def tile_pixels_def window_pixels_def)

lemma card_non_overlapping:
  "non_overlapping ts \<Longrightarrow>
   (\<Sum>t\<leftarrow>ts. int (card (tile_pixels t))) = int (card (\<Union>t \<in> set ts. tile_pixels t))"
proof (induction ts)
  case Nil
  then show ?case by simp
next
  case (Cons t ts)
  have dj: "tile_pixels t \<inter> (\<Union>u \<in> set ts. tile_pixels u) = {}"
    using Cons.prems by (auto dest: tile_pixels_disjoint)
  have fin: "finite (\<Union>u \<in> set ts. tile_pixels u)"
    by (simp add: finite_tile_pixels)
  have "card (tile_pixels t \<union> (\<Union>u \<in> set ts. tile_pixels u)) =
        card (tile_pixels t) + card (\<Union>u \<in> set ts. tile_pixels u)"
    using finite_tile_pixels fin dj by (rule card_Un_disjoint)
  then show ?case
    using Cons by simp
qed

lemma areas_le_window:
  assumes "\<forall>t \<in> set ts. fully_inside win t \<and> 0 \<le> tile_w t \<and> 0 \<le> tile_h t"
    and "non_overlapping ts"
    and "min_x win \<le> max_x win" and "min_y win \<le> max_y win"
  shows "(\<Sum>t\<leftarrow>ts. tile_w t * tile_h t) \<le>
           (max_x win - min_x win + 1) * (max_y win - min_y win + 1)"
proof -
  have "(\<Sum>t\<leftarrow>ts. tile_w t * tile_h t) = (\<Sum>t\<leftarrow>ts. int (card (tile_pixels t)))"
    using assms(1) by (intro arg_cong [where f = sum_list] map_cong) (simp_all add: card_tile_pixels)
  also have "\<dots> = int (card (\<Union>t \<in> set ts. tile_pixels t))"
    using assms(2) by (rule card_non_overlapping)
  also have "\<dots> \<le> int (card (window_pixels win))"
  proof -
    have "(\<Union>t \<in> set ts. tile_pixels t) \<subseteq> window_pixels win"
      using assms(1) tile_pixels_window by blast
    moreover have "finite (window_pixels win)" by (simp add: window_pixels_def)
    ultimately show ?thesis by (simp add: card_mono)
  qed
  also have "\<dots> = (max_x win - min_x win + 1) * (max_y win - min_y win + 1)"
    using assms(3,4) by (rule card_window_pixels)
  finally show ?thesis .
qed

section \<open>The run over a stream of tile data chunks\<close>

lemma length_tile_data_chunk: "length (tile_data_chunk ch) = 28 + length (payload ch)"
  by (simp add: tile_data_chunk_def)

lemma render_loop_tiles:
  assumes nb: "\<forall>p. \<not> brk p" and ps: "1 \<le> passes"
  shows "avail s = [] \<Longrightarrow> pending s = concat (map tile_data_chunk chs) \<Longrightarrow>
    \<forall>ch \<in> set chs. wire_chunk ch \<and> fully_inside win (chunk_tile ch) \<Longrightarrow>
    total_pixels s = (max_x win - min_x win + 1) * (max_y win - min_y win + 1) * passes \<Longrightarrow>
    length (pending s) < fuel \<Longrightarrow>
    \<exists>s' evs. render_loop brk fuel win s = Some (Inr s') \<and>
      rendered_pixels s' =
        rendered_pixels s + (\<Sum>ch\<leftarrow>chs. tile_w (chunk_tile ch) * tile_h (chunk_tile ch)) \<and>
      total_pixels s' = total_pixels s \<and> killed s' = killed s \<and>
      sink s' = sink s @ evs \<and> sorted (reported evs) \<and>
      (\<forall>r \<in> set (reported evs). rendered_pixels s \<le> r \<and>
         r \<le> rendered_pixels s + (\<Sum>ch\<leftarrow>chs. tile_w (chunk_tile ch) * tile_h (chunk_tile ch))) \<and>
      (\<forall>r t. Progress r t \<in> set evs \<longrightarrow>
         t = total_pixels s \<and> 0 < t \<and> min_x win \<le> max_x win \<and> min_y win \<le> max_y win)"
proof (induction chs arbitrary: s fuel)
  case Nil
  then obtain f where f: "fuel = Suc f" by (cases fuel) simp_all
  have nb0: "\<not> brk (polls s)" using nb by blast
  have "render_loop brk fuel win s = Some (Inr (s\<lparr>polls := Suc (polls s), avail := tl (avail s)\<rparr>))"
    unfolding f using Nil.prems(2) by (intro render_loop_end [of brk s, OF nb0]) simp
  then show ?case
    by (intro exI [of _ "s\<lparr>polls := Suc (polls s), avail := tl (avail s)\<rparr>"] exI [of _ "[]"]) simp
next
  case (Cons ch chs)
  let ?rest = "concat (map tile_data_chunk chs)"
  let ?a = "tile_w (chunk_tile ch) * tile_h (chunk_tile ch)"
  let ?A = "\<Sum>c\<leftarrow>chs. tile_w (chunk_tile c) * tile_h (chunk_tile c)"
  have pd: "pending s = tile_data_chunk ch @ ?rest" using Cons.prems(2) by simp
  have wc: "wire_chunk ch" and fi: "fully_inside win (chunk_tile ch)"
    using Cons.prems(3) by simp_all
  have a0: "0 \<le> ?a" using wc by (simp add: wire_chunk_def u32_def)
  have A0: "0 \<le> ?A"
    using Cons.prems(3) by (intro sum_list_nonneg) (auto simp: wire_chunk_def u32_def)
  obtain f where f: "fuel = Suc f" using Cons.prems(5) by (cases fuel) simp_all
  have fl: "length (pending s) \<le> f" using Cons.prems(5) f by simp
  obtain s1 evs1 where c1:
    "render_loop brk (Suc f) win s = render_loop brk f win s1 \<and>
      avail s1 = [] \<and> pending s1 = ?rest \<and> total_pixels s1 = total_pixels s \<and>
      killed s1 = killed s \<and>
      rendered_pixels s1 = rendered_pixels s + ?a \<and>
      sink s1 = sink s @ evs1 \<and>
      (reported evs1 = [] \<or>
       reported evs1 = [rendered_pixels s1] \<and> 0 < total_pixels s \<and>
       min_x win \<le> max_x win \<and> min_y win \<le> max_y win) \<and>
      (\<forall>r t. Progress r t \<in> set evs1 \<longrightarrow> r = rendered_pixels s1 \<and> t = total_pixels s)"
    using render_loop_tile_data_chunk [OF nb Cons.prems(1) pd wc fi Cons.prems(4) ps fl]
    by - ((erule exE)+, erule that)
  note s1 =
    c1 [THEN conjunct1]
    c1 [THEN conjunct2, THEN conjunct1]
    c1 [THEN conjunct2, THEN conjunct2, THEN conjunct1]
    c1 [THEN conjunct2, THEN conjunct2, THEN conjunct2, THEN conjunct1]
    c1 [THEN conjunct2, THEN conjunct2, THEN conjunct2, THEN conjunct2, THEN conjunct1]
    c1 [THEN conjunct2, THEN conjunct2, THEN conjunct2, THEN conjunct2, THEN conjunct2, THEN conjunct1]
    c1 [THEN conjunct2, THEN conjunct2, THEN conjunct2, THEN conjunct2, THEN conjunct2, THEN conjunct2, THEN conjunct1]
    c1 [THEN conjunct2, THEN conjunct2, THEN conjunct2, THEN conjunct2, THEN conjunct2, THEN conjunct2, THEN conjunct2, THEN conjunct1]
    c1 [THEN conjunct2, THEN conjunct2, THEN conjunct2, THEN conjunct2, THEN conjunct2, THEN conjunct2, THEN conjunct2, THEN conjunct2]
  have l1: "length (pending s1) < f"
    using fl unfolding s1(3) pd by (simp add: length_tile_data_chunk)
  have t1: "total_pixels s1 =
      (max_x win - min_x win + 1) * (max_y win - min_y win + 1) * passes"
    using s1(4) Cons.prems(4) by simp
  have r1: "\<forall>c \<in> set chs. wire_chunk c \<and> fully_inside win (chunk_tile c)"
    using Cons.prems(3) by simp
  obtain s2 evs2 where c2:
    "render_loop brk f win s1 = Some (Inr s2) \<and>
      rendered_pixels s2 = rendered_pixels s1 + ?A \<and>
      total_pixels s2 = total_pixels s1 \<and> killed s2 = killed s1 \<and>
      sink s2 = sink s1 @ evs2 \<and> sorted (reported evs2) \<and>
      (\<forall>r \<in> set (reported evs2). rendered_pixels s1 \<le> r \<and> r \<le> rendered_pixels s1 + ?A) \<and>
      (\<forall>r t. Progress r t \<in> set evs2 \<longrightarrow>
         t = total_pixels s1 \<and> 0 < t \<and> min_x win \<le> max_x win \<and> min_y win \<le> max_y win)"
    using Cons.IH [OF s1(2) s1(3) r1 t1 l1]
    by - ((erule exE)+, erule that)
  note s2 =
    c2 [THEN conjunct1]
    c2 [THEN conjunct2, THEN conjunct1]
    c2 [THEN conjunct2, THEN conjunct2, THEN conjunct1]
    c2 [THEN conjunct2, THEN conjunct2, THEN conjunct2, THEN conjunct1]
    c2 [THEN conjunct2, THEN conjunct2, THEN conjunct2, THEN conjunct2, THEN conjunct1]
    c2 [THEN conjunct2, THEN conjunct2, THEN conjunct2, THEN conjunct2, THEN conjunct2, THEN conjunct1]
    c2 [THEN conjunct2, THEN conjunct2, THEN conjunct2, THEN conjunct2, THEN conjunct2, THEN conjunct2, THEN conjunct1]
    c2 [THEN conjunct2, THEN conjunct2, THEN conjunct2, THEN conjunct2, THEN conjunct2, THEN conjunct2, THEN conjunct2]
  have e1: "\<forall>r \<in> set (reported evs1). r = rendered_pixels s1"
    using s1(8) by auto
  have so1: "sorted (reported evs1)"
    using s1(8) by (elim disjE conjE) simp_all
  have cross: "\<forall>x \<in> set (reported evs1). \<forall>y \<in> set (reported evs2). x \<le> y"
  proof (intro ballI)
    fix x y
    assume "x \<in> set (reported evs1)" and "y \<in> set (reported evs2)"
    then have "x = rendered_pixels s1" and "rendered_pixels s1 \<le> y"
      using e1 s2(7) by blast+
    then show "x \<le> y" by simp
  qed
  have srt: "sorted (reported (evs1 @ evs2))"
    unfolding reported_append sorted_append using so1 s2(6) cross by (intro conjI)
  have bnd: "\<forall>r \<in> set (reported (evs1 @ evs2)).
      rendered_pixels s \<le> r \<and> r \<le> rendered_pixels s + (?a + ?A)"
  proof
    fix r
    assume "r \<in> set (reported (evs1 @ evs2))"
    then consider "r \<in> set (reported evs1)" | "r \<in> set (reported evs2)"
      unfolding reported_append by auto
    then show "rendered_pixels s \<le> r \<and> r \<le> rendered_pixels s + (?a + ?A)"
    proof cases
      case 1
      then have "r = rendered_pixels s + ?a" using e1 s1(6) by simp
      then show ?thesis using a0 A0 by simp
    next
      case 2
      then have "rendered_pixels s1 \<le> r" "r \<le> rendered_pixels s1 + ?A"
        using s2(7) by blast+
      then show ?thesis unfolding s1(6) using a0 by simp
    qed
  qed
  have prg: "\<forall>r t. Progress r t \<in> set (evs1 @ evs2) \<longrightarrow>
         t = total_pixels s \<and> 0 < t \<and> min_x win \<le> max_x win \<and> min_y win \<le> max_y win"
  proof (intro allI impI)
    fix r t assume "Progress r t \<in> set (evs1 @ evs2)"
    then consider "Progress r t \<in> set evs1" | "Progress r t \<in> set evs2" by auto
    then show "t = total_pixels s \<and> 0 < t \<and> min_x win \<le> max_x win \<and> min_y win \<le> max_y win"
    proof cases
      case 1
      then have "r \<in> set (reported evs1)" using set_reported by blast
      then have ne: "reported evs1 \<noteq> []" by auto
      have w: "0 < total_pixels s \<and> min_x win \<le> max_x win \<and> min_y win \<le> max_y win"
        using s1(8) ne by blast
      have "t = total_pixels s" using s1(9) 1 by blast
      then show ?thesis using w by simp
    next
      case 2
      then have "t = total_pixels s1 \<and> 0 < t \<and> min_x win \<le> max_x win \<and> min_y win \<le> max_y win"
        using s2(8) by blast
      then show ?thesis unfolding s1(4) .
    qed
  qed
  have "render_loop brk fuel win s = Some (Inr s2)"
    unfolding f s1(1) s2(1) ..
  moreover have "rendered_pixels s2 = rendered_pixels s +
      (\<Sum>c\<leftarrow>ch # chs. tile_w (chunk_tile c) * tile_h (chunk_tile c))"
    using s2(2) s1(6) by simp
  moreover have "sink s2 = sink s @ (evs1 @ evs2)"
    using s2(5) s1(7) by simp
  moreover have "total_pixels s2 = total_pixels s" "killed s2 = killed s"
    using s2(3,4) s1(4,5) by simp_all
  ultimately show ?case
    using srt bnd prg by (intro exI [of _ s2] exI [of _ "evs1 @ evs2"]) simp
qed

section \<open>Progress\<close>



section \<open>The window clipper\<close>

text \<open>
  Claim C8. For a tile fully inside the render window the clipped rectangle has the
  dimensions of the tile, \<open>take_x = w\<close> and \<open>take_y = h\<close>, and nothing of the tile is
  skipped, \<open>skip_x = skip_y = 0\<close>. A tile of at least one pixel that is fully inside is
  moreover not rejected by the two window tests.
\<close>

theorem fully_inside_clip:
  "fully_inside win t \<Longrightarrow>
     take_x win t = tile_w t \<and> take_y win t = tile_h t \<and> skip_x win t = 0 \<and> skip_y win t = 0 \<and>
     (0 < tile_w t \<and> 0 < tile_h t \<longrightarrow> \<not> outside win t)"
  by (auto simp: fully_inside_def take_x_def take_y_def skip_x_def skip_y_def
      ix0_def ix1_def iy0_def iy1_def outside_def)

theorem fully_inside_clip_witness:
  "fully_inside \<lparr>min_x = 0, min_y = 0, max_x = 9, max_y = 9\<rparr>
       \<lparr>tile_x = 2, tile_y = 3, tile_w = 4, tile_h = 5\<rparr> \<and>
   take_x \<lparr>min_x = 0, min_y = 0, max_x = 9, max_y = 9\<rparr>
       \<lparr>tile_x = 2, tile_y = 3, tile_w = 4, tile_h = 5\<rparr> = 4 \<and>
   take_y \<lparr>min_x = 0, min_y = 0, max_x = 9, max_y = 9\<rparr>
       \<lparr>tile_x = 2, tile_y = 3, tile_w = 4, tile_h = 5\<rparr> = 5 \<and>
   \<not> outside \<lparr>min_x = 0, min_y = 0, max_x = 9, max_y = 9\<rparr>
       \<lparr>tile_x = 2, tile_y = 3, tile_w = 4, tile_h = 5\<rparr>"
proof -
  have h: "fully_inside \<lparr>min_x = 0, min_y = 0, max_x = 9, max_y = 9\<rparr>
       \<lparr>tile_x = 2, tile_y = 3, tile_w = 4, tile_h = 5\<rparr>"
    by (simp add: fully_inside_def)
  show ?thesis using h fully_inside_clip [OF h] by simp
qed

text \<open>
  Claim C5. For a tile data chunk that arrives complete in a render that is not cancelled,
  with a tile that overlaps the render window, \<^verbatim>\<open>__process_tile_data_chunk\<close> hands the
  display sink a rectangle whose bottom row is \<open>max_y - iy1\<close>, where \<open>iy1\<close> is the last row
  of the tile clipped to the window, \<open>min (tile_y + h - 1) max_y\<close>, and whose height is
  \<open>iy1 - max tile_y min_y + 1\<close>. So a tile whose last row is the last row of the window
  (\<open>tile_y + h - 1 = max_y\<close>) is drawn from destination row 0, and a tile that starts on
  the first row of the window (\<open>tile_y = min_y\<close>) ends on destination row
  \<open>max_y - min_y\<close>. The first tile of the witness hangs over the last row of the window.
\<close>

theorem dest_y_flip:
  assumes "\<forall>p. \<not> brk p"
    and "whole_read 20 s"
    and "unpack 5 (take 20 (pending s)) = Some [x, y, w, h, c]"
    and "20 + nat (w * h * c * 4) \<le> length (pending s)"
    and "nat (w * h * c * 4) < fuel"
    and "\<not> outside win \<lparr>tile_x = x, tile_y = y, tile_w = w, tile_h = h\<rparr>"
    and "total_pixels s \<noteq> 0"
  shows "\<exists>s' dx dy tw th px pr.
          process_tile_data_chunk brk fuel win s = Some (Inr (True, s')) \<and>
          sink s' = sink s @ [Result dx dy tw th px, pr] \<and>
          dy = max_y win - min (y + h - 1) (max_y win) \<and>
          th = min (y + h - 1) (max_y win) - max y (min_y win) + 1 \<and>
          (y + h - 1 = max_y win \<longrightarrow> dy = 0) \<and>
          (y = min_y win \<longrightarrow> dy + th - 1 = max_y win - min_y win)"
proof -
  let ?t = "\<lparr>tile_x = x, tile_y = y, tile_w = w, tile_h = h\<rparr>"
  let ?n = "nat (w * h * c * 4)"
  let ?d = "take ?n (drop 20 (pending s))"
  obtain s1 where s1: "process_tile_data_chunk brk fuel win s =
            Some (emit_tile_data win ?t ?d s1)"
    "sink s1 = sink s" "total_pixels s1 = total_pixels s"
    using process_tile_data_chunk_complete [OF assms(1-5), of win] by blast
  have nn: "0 \<le> w * h * c"
    using unpack_Some(3) [OF assms(3)] by simp
  have "length ?d = ?n" using assms(4) by simp
  moreover have "?n = nat (w * h * c) * 4" using nn by (simp add: nat_mult_distrib)
  ultimately have "length ?d mod 4 = 0" by simp
  then obtain floats where fs: "fromstring ?d = Some floats"
    using fromstring_Some [of ?d] by auto
  have tp: "total_pixels s1 \<noteq> 0" using assms(7) s1(3) by simp
  let ?s2 = "s1\<lparr>sink := sink s1 @
                    [Result (x0 win ?t) (y0 win ?t) (take_x win ?t) (take_y win ?t) (pix win ?t floats),
                     Progress (rendered_pixels s1 + take_x win ?t * take_y win ?t) (total_pixels s1)],
                  rendered_pixels := rendered_pixels s1 + take_x win ?t * take_y win ?t\<rparr>"
  have em: "emit_tile_data win ?t ?d s1 = Inr (True, ?s2)"
    using assms(6) fs tp by (rule emit_tile_data_inside)
  have dy: "y0 win ?t = max_y win - min (y + h - 1) (max_y win)"
    by (simp add: y0_def iy1_def)
  have th: "take_y win ?t = min (y + h - 1) (max_y win) - max y (min_y win) + 1"
    by (simp add: take_y_def iy0_def iy1_def)
  have top: "y + h - 1 = max_y win \<longrightarrow> y0 win ?t = 0"
    unfolding dy by simp
  have bot: "y = min_y win \<longrightarrow> y0 win ?t + take_y win ?t - 1 = max_y win - min_y win"
    unfolding dy th by simp
  have r: "process_tile_data_chunk brk fuel win s = Some (Inr (True, ?s2))"
    unfolding s1(1) em ..
  have k: "sink ?s2 = sink s @
      [Result (x0 win ?t) (y0 win ?t) (take_x win ?t) (take_y win ?t) (pix win ?t floats),
       Progress (rendered_pixels s1 + take_x win ?t * take_y win ?t) (total_pixels s1)]"
    using s1(2) by simp
  show ?thesis
    using r k dy th top bot
    by (intro exI [of _ ?s2] exI [of _ "x0 win ?t"] exI [of _ "y0 win ?t"]
        exI [of _ "take_x win ?t"] exI [of _ "take_y win ?t"] exI [of _ "pix win ?t floats"]
        exI [of _ "Progress (rendered_pixels s1 + take_x win ?t * take_y win ?t) (total_pixels s1)"]
        conjI)
qed

theorem dest_y_flip_witness:
  "(\<exists>s' dx tw px pr.
      process_tile_data_chunk never 50 example_window
        (example_state ([0,0,0,0, 5,0,0,0, 1,0,0,0, 10,0,0,0, 1,0,0,0] @ replicate 40 7) [19, 9]) =
        Some (Inr (True, s')) \<and>
      sink s' = [Result dx 0 tw 5 px, pr]) \<and>
   (\<exists>s' dx tw px pr.
      process_tile_data_chunk never 50 example_window
        (example_state ([0,0,0,0, 0,0,0,0, 1,0,0,0, 10,0,0,0, 1,0,0,0] @ replicate 40 7) [19, 9]) =
        Some (Inr (True, s')) \<and>
      sink s' = [Result dx 0 tw 10 px, pr])"
proof -
  let ?a = "example_state ([0,0,0,0, 5,0,0,0, 1,0,0,0, 10,0,0,0, 1,0,0,0] @ replicate 40 7) [19, 9]"
  let ?b = "example_state ([0,0,0,0, 0,0,0,0, 1,0,0,0, 10,0,0,0, 1,0,0,0] @ replicate 40 7) [19, 9]"
  have h1: "\<forall>p. \<not> never p" by (simp add: never_def)
  have a2: "whole_read 20 ?a" by code_simp
  have a3: "unpack 5 (take 20 (pending ?a)) = Some [0, 5, 1, 10, 1]" by code_simp
  have a4: "20 + nat (1 * 10 * 1 * 4) \<le> length (pending ?a)" by code_simp
  have h5: "nat (1 * 10 * 1 * 4) < (50::nat)" by simp
  have a6: "\<not> outside example_window \<lparr>tile_x = 0, tile_y = 5, tile_w = 1, tile_h = 10\<rparr>"
    by code_simp
  have a7: "total_pixels ?a \<noteq> 0" by code_simp
  have b2: "whole_read 20 ?b" by code_simp
  have b3: "unpack 5 (take 20 (pending ?b)) = Some [0, 0, 1, 10, 1]" by code_simp
  have b4: "20 + nat (1 * 10 * 1 * 4) \<le> length (pending ?b)" by code_simp
  have b6: "\<not> outside example_window \<lparr>tile_x = 0, tile_y = 0, tile_w = 1, tile_h = 10\<rparr>"
    by code_simp
  have b7: "total_pixels ?b \<noteq> 0" by code_simp
  have e: "sink ?a = []" "sink ?b = []" "max_y example_window = 9" "min_y example_window = 0"
    by code_simp+
  have A: "\<exists>s' dx tw px pr.
      process_tile_data_chunk never 50 example_window ?a = Some (Inr (True, s')) \<and>
      sink s' = [Result dx 0 tw 5 px, pr]"
    using dest_y_flip [OF h1 a2 a3 a4 h5 a6 a7] unfolding e by (simp; blast?)
  have B: "\<exists>s' dx tw px pr.
      process_tile_data_chunk never 50 example_window ?b = Some (Inr (True, s')) \<and>
      sink s' = [Result dx 0 tw 10 px, pr]"
    using dest_y_flip [OF h1 b2 b3 b4 h5 b6 b7] unfolding e by (simp; blast?)
  show ?thesis using A B by (rule conjI)
qed

text \<open>
  Claim C7. A tile fully outside the render window is ignored. For a tile data chunk whose
  header arrives in one read and whose payload the stream delivers, in a render that is not
  cancelled, \<^verbatim>\<open>__process_tile_data_chunk\<close> returns \<open>True\<close> (the loop goes on with the next
  chunk) and \<open>rendered_pixels\<close>, \<open>total_pixels\<close> and the display sink are as before. For a
  tile highlight chunk whose header arrives in one read, \<^verbatim>\<open>__process_tile_highlight_chunk\<close>
  returns \<open>True\<close> with the same three unchanged.
\<close>

theorem outside_tile_ignored:
  assumes "outside win \<lparr>tile_x = x, tile_y = y, tile_w = w, tile_h = h\<rparr>"
  shows "((\<forall>p. \<not> brk p) \<and> whole_read 20 s \<and>
          unpack 5 (take 20 (pending s)) = Some [x, y, w, h, c] \<and>
          20 + nat (w * h * c * 4) \<le> length (pending s) \<and> nat (w * h * c * 4) < fuel \<longrightarrow>
          (\<exists>s'. process_tile_data_chunk brk fuel win s = Some (Inr (True, s')) \<and>
                rendered_pixels s' = rendered_pixels s \<and> total_pixels s' = total_pixels s \<and>
                sink s' = sink s)) \<and>
         (whole_read 16 s \<and> unpack 4 (take 16 (pending s)) = Some [x, y, w, h] \<longrightarrow>
          (\<exists>s'. process_tile_highlight_chunk win s = Inr (True, s') \<and>
                rendered_pixels s' = rendered_pixels s \<and> total_pixels s' = total_pixels s \<and>
                sink s' = sink s))"
proof (intro conjI impI)
  assume a: "(\<forall>p. \<not> brk p) \<and> whole_read 20 s \<and>
          unpack 5 (take 20 (pending s)) = Some [x, y, w, h, c] \<and>
          20 + nat (w * h * c * 4) \<le> length (pending s) \<and> nat (w * h * c * 4) < fuel"
  then obtain s' where
    "process_tile_data_chunk brk fuel win s =
       Some (emit_tile_data win \<lparr>tile_x = x, tile_y = y, tile_w = w, tile_h = h\<rparr>
               (take (nat (w * h * c * 4)) (drop 20 (pending s))) s')"
    "sink s' = sink s" "rendered_pixels s' = rendered_pixels s" "total_pixels s' = total_pixels s"
    using process_tile_data_chunk_complete [of brk s x y w h c fuel win] by blast
  then show "\<exists>s'. process_tile_data_chunk brk fuel win s = Some (Inr (True, s')) \<and>
                rendered_pixels s' = rendered_pixels s \<and> total_pixels s' = total_pixels s \<and>
                sink s' = sink s"
    using assms by (simp add: emit_tile_data_outside)
next
  assume a: "whole_read 16 s \<and> unpack 4 (take 16 (pending s)) = Some [x, y, w, h]"
  then have rd: "os_read 16 s = (take 16 (pending s), advance 16 s)"
    by (simp add: os_read_whole)
  have "process_tile_highlight_chunk win s = Inr (True, advance 16 s)"
    using rd a assms by (auto simp: process_tile_highlight_chunk_def outside_def Let_def)
  then show "\<exists>s'. process_tile_highlight_chunk win s = Inr (True, s') \<and>
                rendered_pixels s' = rendered_pixels s \<and> total_pixels s' = total_pixels s \<and>
                sink s' = sink s"
    by simp
qed

theorem outside_tile_ignored_witness:
  "outside example_window \<lparr>tile_x = 20, tile_y = 0, tile_w = 1, tile_h = 1\<rparr> \<and>
   (\<exists>s'. process_tile_data_chunk never 17 example_window
           (example_state [20,0,0,0, 0,0,0,0, 1,0,0,0, 1,0,0,0, 4,0,0,0,
                           1,2,3,4, 5,6,7,8, 9,10,11,12, 13,14,15,16] [19, 2, 0]) =
         Some (Inr (True, s')) \<and> rendered_pixels s' = 0 \<and> total_pixels s' = 100 \<and> sink s' = []) \<and>
   (\<exists>s'. process_tile_highlight_chunk example_window
           (example_state [20,0,0,0, 0,0,0,0, 1,0,0,0, 1,0,0,0] []) =
         Inr (True, s') \<and> rendered_pixels s' = 0 \<and> total_pixels s' = 100 \<and> sink s' = [])"
proof -
  let ?d = "example_state [20,0,0,0, 0,0,0,0, 1,0,0,0, 1,0,0,0, 4,0,0,0,
                           1,2,3,4, 5,6,7,8, 9,10,11,12, 13,14,15,16] [19, 2, 0]"
  let ?h = "example_state [20,0,0,0, 0,0,0,0, 1,0,0,0, 1,0,0,0] []"
  have out: "outside example_window \<lparr>tile_x = 20, tile_y = 0, tile_w = 1, tile_h = 1\<rparr>"
    by code_simp
  have d: "(\<forall>p. \<not> never p) \<and> whole_read 20 ?d \<and>
          unpack 5 (take 20 (pending ?d)) = Some [20, 0, 1, 1, 4] \<and>
          20 + nat (1 * 1 * 4 * 4) \<le> length (pending ?d) \<and> nat (1 * 1 * 4 * 4) < (17::nat)"
  proof (intro conjI)
    show "\<forall>p. \<not> never p" by (simp add: never_def)
  qed code_simp+
  have h: "whole_read 16 ?h \<and> unpack 4 (take 16 (pending ?h)) = Some [20, 0, 1, 1]"
    by (intro conjI; code_simp)
  have f: "rendered_pixels ?d = 0" "total_pixels ?d = 100" "sink ?d = []"
    "rendered_pixels ?h = 0" "total_pixels ?h = 100" "sink ?h = []"
    by code_simp+
  from outside_tile_ignored [OF out, of never ?d 4 17, THEN conjunct1, rule_format, OF d]
    outside_tile_ignored [OF out, of _ ?h, THEN conjunct2, rule_format, OF h]
  show ?thesis using out unfolding f by blast
qed

section \<open>Tile data chunks\<close>

text \<open>
  Claim C10. The payload of a tile data chunk is consumed before the window tests: when the
  header arrives in one read, the stream delivers the \<open>w * h * c * 4\<close> payload bytes (in
  pieces of any size) and the render is not cancelled, \<^verbatim>\<open>__process_tile_data_chunk\<close> is the
  window tests and what follows them, run in a state whose stream stands right behind the
  payload. So a tile found outside the window returns \<open>True\<close> with the stream at the next
  chunk header.
\<close>

theorem payload_consumed_before_clipping:
  assumes "\<forall>p. \<not> brk p"
    and "whole_read 20 s"
    and "unpack 5 (take 20 (pending s)) = Some [x, y, w, h, c]"
    and "20 + nat (w * h * c * 4) \<le> length (pending s)"
    and "nat (w * h * c * 4) < fuel"
    and "t = \<lparr>tile_x = x, tile_y = y, tile_w = w, tile_h = h\<rparr>"
  shows "\<exists>s'. process_tile_data_chunk brk fuel win s =
            Some (emit_tile_data win t (take (nat (w * h * c * 4)) (drop 20 (pending s))) s') \<and>
          pending s' = drop (20 + nat (w * h * c * 4)) (pending s) \<and>
          (outside win t \<longrightarrow> process_tile_data_chunk brk fuel win s = Some (Inr (True, s')))"
proof -
  obtain s' where s': "process_tile_data_chunk brk fuel win s =
            Some (emit_tile_data win t (take (nat (w * h * c * 4)) (drop 20 (pending s))) s')"
    "pending s' = drop (20 + nat (w * h * c * 4)) (pending s)"
    using process_tile_data_chunk_complete [OF assms(1-5), of win] assms(6) by blast
  then show ?thesis
    by (auto simp: emit_tile_data_outside)
qed

theorem payload_consumed_before_clipping_witness:
  "\<exists>s'. process_tile_data_chunk never 17 example_window
           (example_state [20,0,0,0, 0,0,0,0, 1,0,0,0, 1,0,0,0, 4,0,0,0,
                           1,2,3,4, 5,6,7,8, 9,10,11,12, 13,14,15,16, 2,0,0,0] [19, 2, 0]) =
         Some (Inr (True, s')) \<and> pending s' = [2,0,0,0]"
proof -
  let ?d = "example_state [20,0,0,0, 0,0,0,0, 1,0,0,0, 1,0,0,0, 4,0,0,0,
                           1,2,3,4, 5,6,7,8, 9,10,11,12, 13,14,15,16, 2,0,0,0] [19, 2, 0]"
  let ?t = "\<lparr>tile_x = 20, tile_y = 0, tile_w = 1, tile_h = 1\<rparr>"
  have out: "outside example_window ?t"
    by code_simp
  have h1: "\<forall>p. \<not> never p" by (simp add: never_def)
  have h2: "whole_read 20 ?d" by code_simp
  have h3: "unpack 5 (take 20 (pending ?d)) = Some [20, 0, 1, 1, 4]" by code_simp
  have h4: "20 + nat (1 * 1 * 4 * 4) \<le> length (pending ?d)" by code_simp
  have h5: "nat (1 * 1 * 4 * 4) < (17::nat)" by simp
  have dr: "drop (20 + nat (1 * 1 * 4 * 4)) (pending ?d) = [2,0,0,0]" by code_simp
  from payload_consumed_before_clipping [OF h1 h2 h3 h4 h5 refl, of example_window]
  show ?thesis using out unfolding dr by blast
qed

text \<open>
  Claim C3, as the code has it. The pixel list handed to the display sink is cut from the
  samples four at a time, whatever the channel count of the header says: for a tile data
  chunk of four channels that arrives complete, with its tile fully inside the window, the
  list is the rows of the tile in reversed order, the last row of the tile first. A 1 by 2
  tile of four channels with the pixels \<open>P0\<close> (top) and \<open>P1\<close> (bottom) is emitted as
  \<open>[P1, P0]\<close>.
\<close>

theorem tile_rows_reversed:
  assumes "\<forall>p. \<not> brk p"
    and "whole_read 20 s"
    and "unpack 5 (take 20 (pending s)) = Some [x, y, w, h, 4]"
    and "20 + nat (w * h * 4 * 4) \<le> length (pending s)"
    and "nat (w * h * 4 * 4) < fuel"
    and "t = \<lparr>tile_x = x, tile_y = y, tile_w = w, tile_h = h\<rparr>"
    and "fully_inside win t" and "\<not> outside win t"
    and "total_pixels s \<noteq> 0"
    and "fromstring (take (nat (w * h * 4 * 4)) (drop 20 (pending s))) = Some floats"
  shows "\<exists>s'. process_tile_data_chunk brk fuel win s = Some (Inr (True, s')) \<and>
          sink s' = sink s @
            [Result (x - min_x win) (max_y win - (y + h - 1)) w h
               (concat (rev (tile_rows 4 (nat w) (nat h) floats))),
             Progress (rendered_pixels s + w * h) (total_pixels s)]"
proof -
  obtain s' where s': "process_tile_data_chunk brk fuel win s =
            Some (emit_tile_data win t (take (nat (w * h * 4 * 4)) (drop 20 (pending s))) s')"
    "sink s' = sink s" "rendered_pixels s' = rendered_pixels s" "total_pixels s' = total_pixels s"
    using process_tile_data_chunk_complete [OF assms(1-5), of win] assms(6) by blast
  have tk: "take_x win t = w" "take_y win t = h"
    using fully_inside_take [OF assms(7)] assms(6) by simp_all
  have xy: "x0 win t = x - min_x win" "y0 win t = max_y win - (y + h - 1)"
    using assms(6,7) by (auto simp: x0_def y0_def ix0_def iy1_def fully_inside_def)
  have px: "pix win t floats = concat (rev (tile_rows 4 (nat w) (nat h) floats))"
    using pix_fully_inside [OF assms(7)] assms(6) by simp
  have "emit_tile_data win t (take (nat (w * h * 4 * 4)) (drop 20 (pending s))) s' =
     Inr (True, s'\<lparr>sink := sink s' @
                    [Result (x0 win t) (y0 win t) (take_x win t) (take_y win t) (pix win t floats),
                     Progress (rendered_pixels s' + take_x win t * take_y win t) (total_pixels s')],
                  rendered_pixels := rendered_pixels s' + take_x win t * take_y win t\<rparr>)"
    using assms(8,9,10) s'(4) by (intro emit_tile_data_inside) simp_all
  then show ?thesis
    using s' by (simp add: tk xy px)
qed

theorem tile_rows_reversed_witness:
  "\<exists>s'. process_tile_data_chunk never 40 example_window
      (example_state [3,0,0,0, 5,0,0,0, 1,0,0,0, 2,0,0,0, 4,0,0,0,
                      10,0,0,0, 11,0,0,0, 12,0,0,0, 13,0,0,0,
                      20,0,0,0, 21,0,0,0, 22,0,0,0, 23,0,0,0] [19, 4]) = Some (Inr (True, s')) \<and>
     sink s' = [Result 3 3 1 2 [[20, 21, 22, 23], [10, 11, 12, 13]], Progress 2 100]"
proof -
  let ?s = "example_state [3,0,0,0, 5,0,0,0, 1,0,0,0, 2,0,0,0, 4,0,0,0,
                      10,0,0,0, 11,0,0,0, 12,0,0,0, 13,0,0,0,
                      20,0,0,0, 21,0,0,0, 22,0,0,0, 23,0,0,0] [19, 4]"
  let ?t = "\<lparr>tile_x = 3, tile_y = 5, tile_w = 1, tile_h = 2\<rparr>"
  have h1: "\<forall>p. \<not> never p" by (simp add: never_def)
  have h2: "whole_read 20 ?s" by code_simp
  have h3: "unpack 5 (take 20 (pending ?s)) = Some [3, 5, 1, 2, 4]" by code_simp
  have h4: "20 + nat (1 * 2 * 4 * 4) \<le> length (pending ?s)" by code_simp
  have h5: "nat (1 * 2 * 4 * 4) < (40::nat)" by simp
  have h7: "fully_inside example_window ?t" by code_simp
  have h8: "\<not> outside example_window ?t" by code_simp
  have h9: "total_pixels ?s \<noteq> 0" by code_simp
  have h10: "fromstring (take (nat (1 * 2 * 4 * 4)) (drop 20 (pending ?s))) =
      Some [10, 11, 12, 13, 20, 21, 22, 23]" by code_simp
  have r: "concat (rev (tile_rows 4 (nat 1) (nat 2) [10, 11, 12, 13, 20, 21, 22, 23 :: float32])) =
      [[20, 21, 22, 23], [10, 11, 12, 13]]" by code_simp
  have f: "sink ?s = []" "rendered_pixels ?s = 0" "total_pixels ?s = 100" "max_y example_window = 9"
    "min_x example_window = 0" by code_simp+
  from tile_rows_reversed [OF h1 h2 h3 h4 h5 refl h7 h8 h9 h10]
  show ?thesis unfolding r f by simp
qed

text \<open>
  Claim C3 as stated fails for its own example. The 1 by 2 tile with one channel and the
  samples 10.0 and 20.0 (\<open>0x41200000\<close> and \<open>0x41A00000\<close>) is emitted as the two-element list
  \<open>[[], [10.0, 20.0]]\<close>: the slice \<^verbatim>\<open>floats[4:8]\<close> of the second row is empty and the slice
  \<^verbatim>\<open>floats[0:4]\<close> of the first row holds both samples. The rows in reversed order would be
  \<open>[[20.0], [10.0]]\<close>.
\<close>

theorem one_channel_tile_counterexample:
  "process_tile_data_chunk never 9 example_window
      (example_state [0,0,0,0, 0,0,0,0, 1,0,0,0, 2,0,0,0, 1,0,0,0,
                      0,0,0x20,0x41, 0,0,0xA0,0x41] []) =
     Some (Inr (True, (example_state [] [])\<lparr>polls := 2, rendered_pixels := 2,
       sink := [Result 0 8 1 2 [[], [0x41200000, 0x41A00000]], Progress 2 100]\<rparr>)) \<and>
   fromstring [0,0,0x20,0x41, 0,0,0xA0,0x41] = Some [0x41200000, 0x41A00000] \<and>
   concat (rev (tile_rows 1 1 2 [0x41200000, 0x41A00000 :: float32])) =
     [[0x41A00000], [0x41200000]] \<and>
   [[], [0x41200000, 0x41A00000]] \<noteq> [[0x41A00000], [0x41200000 :: float32]]"
  by code_simp

section \<open>Tile highlight chunks\<close>

text \<open>
  Claim C9. For a tile highlight chunk whose header arrives in one read and whose tile is
  not outside the window, the handler makes exactly eight calls of the display sink, a
  horizontal and a vertical arm for each corner of the clipped rectangle
  \<open>{x0, y0, x1, y1}\<close>: each arm is one pixel thick, filled with \<open>bracket_color\<close>, and
  \<open>min 5 (x1 - x0 + 1)\<close> long when horizontal, \<open>min 5 (y1 - y0 + 1)\<close> when vertical.
\<close>

theorem highlight_bracket:
  assumes "whole_read 16 s"
    and "unpack 4 (take 16 (pending s)) = Some [x, y, w, h]"
    and "t = \<lparr>tile_x = x, tile_y = y, tile_w = w, tile_h = h\<rparr>"
    and "\<not> outside win t"
    and "bw = min 5 (x1 win t - x0 win t + 1)"
    and "bh = min 5 (y1 win t - y0 win t + 1)"
  shows "\<exists>segs. process_tile_highlight_chunk win s =
            Inr (True, (advance 16 s)\<lparr>sink := sink s @ segs\<rparr>) \<and>
          length segs = 8 \<and>
          segs =
            [Result (x0 win t) (y1 win t) bw 1 (replicate (nat bw) bracket_color),
             Result (x0 win t) (y1 win t - bh + 1) 1 bh (replicate (nat bh) bracket_color),
             Result (x1 win t - bw + 1) (y1 win t) bw 1 (replicate (nat bw) bracket_color),
             Result (x1 win t) (y1 win t - bh + 1) 1 bh (replicate (nat bh) bracket_color),
             Result (x0 win t) (y0 win t) bw 1 (replicate (nat bw) bracket_color),
             Result (x0 win t) (y0 win t) 1 bh (replicate (nat bh) bracket_color),
             Result (x1 win t - bw + 1) (y0 win t) bw 1 (replicate (nat bw) bracket_color),
             Result (x1 win t) (y0 win t) 1 bh (replicate (nat bh) bracket_color)]"
proof -
  have rd: "os_read 16 s = (take 16 (pending s), advance 16 s)"
    using assms(1) by (rule os_read_whole)
  have no: "\<not> (x > max_x win \<or> x + w - 1 < min_x win)" "\<not> (y > max_y win \<or> y + h - 1 < min_y win)"
    using assms(3,4) by (auto simp: outside_def)
  show ?thesis
    using rd assms(2) no unfolding assms(3,5,6)
    by (simp add: process_tile_highlight_chunk_def Let_def draw_hline_def draw_vline_def
        bracket_extent_def advance_def)
qed

theorem highlight_bracket_witness:
  "process_tile_highlight_chunk example_window
     (example_state [0,0,0,0, 0,0,0,0, 3,0,0,0, 3,0,0,0] []) =
   Inr (True, (example_state [] [])\<lparr>sink :=
     [Result 0 9 3 1 (replicate 3 bracket_color), Result 0 7 1 3 (replicate 3 bracket_color),
      Result 0 9 3 1 (replicate 3 bracket_color), Result 2 7 1 3 (replicate 3 bracket_color),
      Result 0 7 3 1 (replicate 3 bracket_color), Result 0 7 1 3 (replicate 3 bracket_color),
      Result 0 7 3 1 (replicate 3 bracket_color), Result 2 7 1 3 (replicate 3 bracket_color)]\<rparr>)"
proof -
  let ?s = "example_state [0,0,0,0, 0,0,0,0, 3,0,0,0, 3,0,0,0] []"
  let ?t = "\<lparr>tile_x = 0, tile_y = 0, tile_w = 3, tile_h = 3\<rparr>"
  have h1: "whole_read 16 ?s" by code_simp
  have h2: "unpack 4 (take 16 (pending ?s)) = Some [0, 0, 3, 3]" by code_simp
  have h4: "\<not> outside example_window ?t" by code_simp
  have h5: "(3::int) = min 5 (x1 example_window ?t - x0 example_window ?t + 1)" by code_simp
  have h6: "(3::int) = min 5 (y1 example_window ?t - y0 example_window ?t + 1)" by code_simp
  have c: "x0 example_window ?t = 0" "x1 example_window ?t = 2"
    "y0 example_window ?t = 7" "y1 example_window ?t = 9" by code_simp+
  have a: "advance 16 ?s = example_state [] []" by code_simp
  have e: "sink ?s = []" by code_simp
  from highlight_bracket [OF h1 h2 refl h4 h5 h6] show ?thesis
    unfolding c a e by simp
qed

end
